theory Spec2Isabelle
  imports Main "HOL-Library.Signed_Division" "HOL-Library.Word"
begin

unbundle bit_operations_syntax

section \<open>C integer arithmetic\<close>

text \<open>
  Values of the C type \<open>int\<close> are modelled as mathematical integers. The operators
  \<open>/\<close> and \<open>%\<close> of C truncate towards zero; these are \<open>sdiv\<close> and \<open>smod\<close> of
  \<open>HOL-Library.Signed_Division\<close> (\<open>div\<close> and \<open>mod\<close> of HOL round towards minus
  infinity instead). Signed overflow is undefined in C; the functions below are exact on
  every run whose intermediate values stay inside the range of \<open>int\<close>.
\<close>

section \<open>src/examples/control\_flow.c\<close>

subsection \<open>process\_value\<close>

definition process_value :: "int \<Rightarrow> int" where
  "process_value val =
     (let result = (0::int);
          result =
            (if val > 100 then
               (if val smod 2 = 0 then val sdiv 2 else (val * 3) + 1)
             else if val > 50 then
               (if val smod 3 = 0 then val * 3 else val - 10)
             else
               (if val smod 2 = 0 then val * val else val + 1))
      in result)"

subsection \<open>complex\_switch\<close>

text \<open>
  The arms of the first \<open>switch\<close>, in source order. Each arm maps the value of
  \<open>result\<close> on entry to its value on exit. The arm of \<open>case 2\<close> has no \<open>break\<close>:
  control runs on into the arm of \<open>case 3\<close>. \<open>case 4\<close> has an empty arm and runs on
  into the arm of \<open>case 5\<close>.
\<close>

definition case_1_arm :: "int \<Rightarrow> int" where
  "case_1_arm result = 100"

definition case_2_arm :: "int \<Rightarrow> int" where
  "case_2_arm result = 200"

definition case_3_arm :: "int \<Rightarrow> int" where
  "case_3_arm result = result + 300"

definition case_5_arm :: "int \<Rightarrow> int" where
  "case_5_arm result = 500"

definition default_arm :: "int \<Rightarrow> int" where
  "default_arm result = - 1"

definition first_switch :: "int \<Rightarrow> int \<Rightarrow> int" where
  "first_switch code result =
     (if code = 1 then case_1_arm result
      else if code = 2 then case_3_arm (case_2_arm result)
      else if code = 3 then case_3_arm result
      else if code = 4 then case_5_arm result
      else if code = 5 then case_5_arm result
      else default_arm result)"

text \<open>The nested \<open>switch\<close>: every arm returns.\<close>

definition nested_switch :: "int \<Rightarrow> int" where
  "nested_switch result =
     (if result = 100 then result * 2
      else if result = 200 then result sdiv 2
      else if result = 500 then result sdiv 2
      else if result = 600 then result - 100
      else result)"

definition complex_switch :: "int \<Rightarrow> int" where
  "complex_switch code =
     (let result = 0;
          result = first_switch code result
      in if result > 0 then nested_switch result else result)"

subsection \<open>complex\_loops\<close>

text \<open>
  The three non-local jumps of \<open>complex_loops\<close>. The loops below carry, beside the
  variables of the C function, the list of jumps taken so far (oldest first); the list
  is not read by the loops and has no influence on \<open>sum\<close>.
\<close>

datatype jump =
    Continue_Outer  \<comment> \<open>the \<open>continue\<close> guarded by \<open>i % 3 == 0\<close>\<close>
  | Break_Inner     \<comment> \<open>the \<open>break\<close> guarded by \<open>sum > 1000\<close>\<close>
  | Break_Outer     \<comment> \<open>the \<open>break\<close> guarded by \<open>sum > 2000\<close>\<close>

text \<open>\<open>for (int j = 0; j < i; j++) { sum += i * j; if (sum > 1000) break; }\<close>\<close>

function complex_loops_inner :: "int \<Rightarrow> int \<Rightarrow> int \<Rightarrow> jump list \<Rightarrow> int \<times> jump list" where
  "complex_loops_inner i j sum1 jumps =
     (if j < i then
        (let sum1 = sum1 + i * j
         in if sum1 > 1000 then (sum1, jumps @ [Break_Inner])
            else complex_loops_inner i (j + 1) sum1 jumps)
      else (sum1, jumps))"
  by pat_completeness auto
termination
  by (relation "measure (\<lambda>(i, j, sum1, jumps). nat (i - j))") auto

declare complex_loops_inner.simps [simp del]

text \<open>The outer \<open>for\<close> loop; \<open>continue\<close> goes on with \<open>i++\<close>.\<close>

function complex_loops_outer :: "int \<Rightarrow> int \<Rightarrow> int \<Rightarrow> jump list \<Rightarrow> int \<times> jump list" where
  "complex_loops_outer n i sum1 jumps =
     (if i < n then
        (if i smod 3 = 0 then complex_loops_outer n (i + 1) sum1 (jumps @ [Continue_Outer])
         else
           (case complex_loops_inner i 0 sum1 jumps of
              (sum1, jumps) \<Rightarrow>
                if sum1 > 2000 then (sum1, jumps @ [Break_Outer])
                else complex_loops_outer n (i + 1) sum1 jumps))
      else (sum1, jumps))"
  by pat_completeness auto
termination
  by (relation "measure (\<lambda>(n, i, sum1, jumps). nat (n - i))") auto

declare complex_loops_outer.simps [simp del]

definition complex_loops_run :: "int \<Rightarrow> int \<times> jump list" where
  "complex_loops_run n = complex_loops_outer n 0 0 []"

definition complex_loops :: "int \<Rightarrow> int" where
  "complex_loops n = fst (complex_loops_run n)"

definition complex_loops_jumps :: "int \<Rightarrow> jump list" where
  "complex_loops_jumps n = snd (complex_loops_run n)"

section \<open>src/examples/fibonacci.c\<close>

function fibonacci :: "int \<Rightarrow> int" where
  "fibonacci n = (if n \<le> 1 then n else fibonacci (n - 1) + fibonacci (n - 2))"
  by pat_completeness auto
termination
  by (relation "measure nat") auto

declare fibonacci.simps [simp del]

text \<open>The \<open>for\<close> loop of \<open>fibonacci_iterative\<close>, entered with \<open>i\<close>, \<open>a\<close> and \<open>b\<close>.\<close>

function fibonacci_iterative_loop :: "int \<Rightarrow> int \<Rightarrow> int \<Rightarrow> int \<Rightarrow> int" where
  "fibonacci_iterative_loop n i a b =
     (if i \<le> n then
        (let c = a + b;
             a = b;
             b = c
         in fibonacci_iterative_loop n (i + 1) a b)
      else b)"
  by pat_completeness auto
termination
  by (relation "measure (\<lambda>(n, i, a, b). nat (n + 1 - i))") auto

declare fibonacci_iterative_loop.simps [simp del]

definition fibonacci_iterative :: "int \<Rightarrow> int" where
  "fibonacci_iterative n =
     (if n \<le> 1 then n else fibonacci_iterative_loop n 2 0 1)"

text \<open>
  The Fibonacci numbers as the recurrence defines them, for comparison with the two
  C functions: \<open>F 0 = 0\<close>, \<open>F 1 = 1\<close>, \<open>F (k + 2) = F (k + 1) + F k\<close>.
\<close>

fun fibonacci_number :: "nat \<Rightarrow> int" where
  "fibonacci_number 0 = 0"
| "fibonacci_number (Suc 0) = 1"
| "fibonacci_number (Suc (Suc k)) = fibonacci_number (Suc k) + fibonacci_number k"

section \<open>src/rustcc/tests/complex.c\<close>

function factorial :: "int \<Rightarrow> int" where
  "factorial n = (if n \<le> 1 then 1 else n * factorial (n - 1))"
  by pat_completeness auto
termination
  by (relation "measure nat") auto

declare factorial.simps [simp del]

text \<open>The \<open>fibonacci\<close> of complex.c (the file has its own, with two base cases).\<close>

function complex_fibonacci :: "int \<Rightarrow> int" where
  "complex_fibonacci n =
     (if n \<le> 0 then 0
      else if n = 1 then 1
      else complex_fibonacci (n - 1) + complex_fibonacci (n - 2))"
  by pat_completeness auto
termination
  by (relation "measure nat") auto

declare complex_fibonacci.simps [simp del]

text \<open>
  \<open>calculate_sum\<close>: the array is the list of its elements; reading \<open>arr[i]\<close> outside
  the array is undefined in C and \<open>None\<close> here.
\<close>

function calculate_sum_loop :: "int list \<Rightarrow> int \<Rightarrow> int \<Rightarrow> int \<Rightarrow> int option" where
  "calculate_sum_loop arr size1 i sum1 =
     (if i < size1 then
        (if 0 \<le> i \<and> nat i < length arr
         then calculate_sum_loop arr size1 (i + 1) (sum1 + arr ! nat i)
         else None)
      else Some sum1)"
  by pat_completeness auto
termination
  by (relation "measure (\<lambda>(arr, size1, i, sum1). nat (size1 - i))") auto

declare calculate_sum_loop.simps [simp del]

definition calculate_sum :: "int list \<Rightarrow> int \<Rightarrow> int option" where
  "calculate_sum arr size1 = calculate_sum_loop arr size1 0 0"

text \<open>\<open>for (int i = 0; i < 3; i++) { z += i * 2; }\<close>\<close>

function complex_main_for :: "int \<Rightarrow> int \<Rightarrow> int" where
  "complex_main_for i z = (if i < 3 then complex_main_for (i + 1) (z + i * 2) else z)"
  by pat_completeness auto
termination
  by (relation "measure (\<lambda>(i, z). nat (3 - i))") auto

declare complex_main_for.simps [simp del]

text \<open>\<open>while (counter > 0) { z += counter; counter--; }\<close>\<close>

function complex_main_while :: "int \<Rightarrow> int \<Rightarrow> int" where
  "complex_main_while counter z =
     (if counter > 0 then complex_main_while (counter - 1) (z + counter) else z)"
  by pat_completeness auto
termination
  by (relation "measure (\<lambda>(counter, z). nat counter)") auto

declare complex_main_while.simps [simp del]

text \<open>The value of \<open>z\<close> after the branch and the two loops.\<close>

definition complex_main_z :: int where
  "complex_main_z =
     (let x = 42;
          y = 10;
          z = (0::int);
          z = (if x > y then x - y else y - x);
          z = complex_main_for 0 z;
          counter = 5;
          z = complex_main_while counter z
      in z)"

text \<open>
  The value of \<open>result\<close> before the \<open>switch\<close>. The divisor \<open>sum % 10 + 1\<close> is
  computed; dividing by zero is undefined in C and \<open>None\<close> here.
\<close>

definition complex_main_result :: "int option" where
  "complex_main_result =
     (let numbers = [5, 10, 15, 20, 25];
          z = complex_main_z;
          fact = factorial 4;
          fib = complex_fibonacci 7
      in case calculate_sum numbers 5 of
           None \<Rightarrow> None
         | Some sum1 \<Rightarrow>
             if sum1 smod 10 + 1 = 0 then None
             else Some (z + (fact * fib) sdiv (sum1 smod 10 + 1)))"

text \<open>\<open>switch (result % 3)\<close>: every arm ends in \<open>break\<close>.\<close>

definition complex_main_switch :: "int \<Rightarrow> int" where
  "complex_main_switch result =
     (if result smod 3 = 0 then result + 5
      else if result smod 3 = 1 then result * 2
      else result - 1)"

definition complex_main :: "int option" where
  "complex_main =
     (case complex_main_result of
        None \<Rightarrow> None
      | Some result \<Rightarrow> Some (complex_main_switch result))"

section \<open>src/examples/string\_encryption.c\<close>

text \<open>
  A C string is a buffer of bytes (\<open>char\<close>); its content is the bytes before the first
  NUL, which \<open>c_str\<close> reads. A buffer that holds a NUL is a NUL-terminated string. A
  string literal denotes the buffer of its characters followed by NUL.
\<close>

definition NUL :: char where
  "NUL = CHR 0x00"

definition c_str :: "string \<Rightarrow> string" where
  "c_str buf = takeWhile (\<lambda>c. c \<noteq> NUL) buf"

definition string_literal :: "string \<Rightarrow> string" where
  "string_literal s = s @ [NUL]"

text \<open>
  \<open>strcmp\<close> is the function of the C library (the repository has no code for it): it
  walks both buffers until the bytes differ or a NUL is reached, and returns the
  difference of the two bytes, read as \<open>unsigned char\<close>. Reading past the end of a
  buffer is undefined in C and \<open>None\<close> here.
\<close>

fun strcmp :: "string \<Rightarrow> string \<Rightarrow> int option" where
  "strcmp (c1 # s1) (c2 # s2) =
     (if c1 \<noteq> c2 then Some (of_char c1 - of_char c2)
      else if c1 = NUL then Some 0
      else strcmp s1 s2)"
| "strcmp _ _ = None"

text \<open>
  \<open>authenticate\<close>: \<open>&&\<close> evaluates its second operand only when the first is true.
\<close>

definition authenticate :: "string \<Rightarrow> string \<Rightarrow> int option" where
  "authenticate username password =
     (let valid_username = string_literal ''admin'';
          valid_password = string_literal ''supersecret123''
      in case strcmp username valid_username of
           None \<Rightarrow> None
         | Some r1 \<Rightarrow>
             if r1 = 0 then
               (case strcmp password valid_password of
                  None \<Rightarrow> None
                | Some r2 \<Rightarrow> if r2 = 0 then Some 1 else Some 0)
             else Some 0)"

section \<open>The text of the corpus\<close>

text \<open>
  Three lines of the corpus, as they stand in the files (indentation included):
  line 54 of src/examples/control\_flow.c, in \<open>complex_loops\<close>; line 21 of
  src/rustcc/tests/complex.c, in \<open>calculate_sum\<close>; line 71 of the same file, in \<open>main\<close>.
\<close>

definition control_flow_c_line_54 :: string where
  "control_flow_c_line_54 = ''            sum += i * j;''"

definition complex_c_line_21 :: string where
  "complex_c_line_21 = ''        sum += arr[i];''"

definition complex_c_line_71 :: string where
  "complex_c_line_71 = ''            result -= 1;''"

text \<open>\<open>occurs tok line\<close>: the characters of \<open>tok\<close> stand next to each other in \<open>line\<close>.\<close>

fun starts_with :: "string \<Rightarrow> string \<Rightarrow> bool" where
  "starts_with [] line = True"
| "starts_with (t # tok) [] = False"
| "starts_with (t # tok) (c # line) = (t = c \<and> starts_with tok line)"

fun occurs :: "string \<Rightarrow> string \<Rightarrow> bool" where
  "occurs tok [] = starts_with tok []"
| "occurs tok (c # line) = (starts_with tok (c # line) \<or> occurs tok line)"

section \<open>String-Encryption Pass: encrypted literals\<close>

type_synonym byte = "8 word"

text \<open>
  Modelled from the spec: the String-Encryption Pass and its Encrypted Literal record
  are not among the source files. Section 3 of the spec gives the record (the original
  byte sequence, a per-literal key, the cipher bytes); section 4.5 asks for a
  reversible byte transform, "byte-wise combination with a per-literal key stream". The
  key stream here repeats the bytes of the key (an empty key gives the stream of
  zeros), and the combination is exclusive or.
\<close>

definition key_stream :: "byte list \<Rightarrow> nat \<Rightarrow> byte" where
  "key_stream key i = (if key = [] then 0 else key ! (i mod length key))"

fun combine :: "byte list \<Rightarrow> nat \<Rightarrow> byte list \<Rightarrow> byte list" where
  "combine key i [] = []"
| "combine key i (b # bs) = (b XOR key_stream key i) # combine key (Suc i) bs"

record encrypted_literal =
  original :: "byte list"
  literal_key :: "byte list"
  cipher :: "byte list"

definition encrypt :: "byte list \<Rightarrow> byte list \<Rightarrow> encrypted_literal" where
  "encrypt key bs = \<lparr>original = bs, literal_key = key, cipher = combine key 0 bs\<rparr>"

definition decrypt :: "byte list \<Rightarrow> byte list \<Rightarrow> byte list" where
  "decrypt cipher_bytes key = combine key 0 cipher_bytes"

text \<open>The bytes of a literal written as a string.\<close>

definition bytes_of :: "string \<Rightarrow> byte list" where
  "bytes_of s = map of_char s"

section \<open>The transformation pipeline\<close>

subsection \<open>Literals and expressions\<close>

text \<open>
  Modelled from the spec: the pipeline (CFG Builder, Flattening Pass, String-Encryption
  Pass) is not among the source files; the definitions of this section follow sections
  3, 4.3, 4.4 and 4.5 of the spec. A string literal is either still in the clear or
  already replaced by an Encrypted Literal record; a use site reads the bytes of the
  literal, decrypting them first in the second case (section 4.5, steps 2 and 3).
\<close>

datatype lit = Plain "byte list" | Encrypted encrypted_literal

fun lit_bytes :: "lit \<Rightarrow> byte list" where
  "lit_bytes (Plain bs) = bs"
| "lit_bytes (Encrypted e) = decrypt (cipher e) (literal_key e)"

text \<open>
  Modelled from the spec: expressions and straight-line statements are kept as what they
  do. An \<open>act\<close> lists the string literals of the expression, in order of occurrence,
  and gives its meaning as a function of the bytes of these literals and of the store
  \<open>'x\<close> of the function (its arguments and locals): an \<open>outcome\<close>. An outcome
  either is finished, with the value of the expression, the new store and the observable
  events \<open>'e\<close> (I/O calls) it emitted, in order; or it calls the function with a given
  index on a given initial store \<open>'s\<close> and goes on, once the call has returned, from
  the returned value and the final store of the callee. An expression with several
  calls is a chain of such steps. The passes neither unroll nor inline a call.
\<close>

datatype ('x, 's, 'e) outcome =
    Value int 'x "'e list"
  | Invoke nat 's "int option \<Rightarrow> 's \<Rightarrow> ('x, 's, 'e) outcome"

datatype ('x, 's, 'e) act =
  Act (lits: "lit list") (sem: "byte list list \<Rightarrow> 'x \<Rightarrow> ('x, 's, 'e) outcome")

text \<open>
  Modelled from the spec: what a call does is given from outside, by \<open>callees\<close>: for
  a function index and an initial store, the returned value (none for \<open>void\<close>), the
  final store of the callee and the events of the call; or nothing when the call does not
  return. \<open>resolve\<close> runs an outcome to its end, putting the events of each call
  before the events that follow it; \<open>perform\<close> evaluates an expression in a store.
\<close>

type_synonym ('s, 'e) callees = "nat \<Rightarrow> 's \<Rightarrow> (int option \<times> 's \<times> 'e list) option"

primrec resolve :: "('s, 'e) callees \<Rightarrow> ('x, 's, 'e) outcome \<Rightarrow> (int \<times> 'x \<times> 'e list) option" where
  "resolve callee (Value v x out) = Some (v, x, out)"
| "resolve callee (Invoke f s k) =
     (case callee f s of
        None \<Rightarrow> None
      | Some (r, s', out) \<Rightarrow>
          (case resolve callee (k r s') of
             None \<Rightarrow> None
           | Some (v, x, out') \<Rightarrow> Some (v, x, out @ out')))"

definition perform :: "('s, 'e) callees \<Rightarrow> ('x, 's, 'e) act \<Rightarrow> 'x \<Rightarrow> (int \<times> 'x \<times> 'e list) option" where
  "perform callee a x = resolve callee (sem a (map lit_bytes (lits a)) x)"

subsection \<open>Statement trees\<close>

text \<open>
  Modelled from the spec: the statement forms of section 3. \<open>Loop test_first c step b\<close>
  stands for the three loops of C: \<open>while\<close> and \<open>for\<close> test the condition first,
  \<open>do\<close> \<dots> \<open>while\<close> runs the body once before the first test; \<open>step\<close> is
  the increment of a \<open>for\<close>. A \<open>Switch\<close> has ordered \<open>(label, statements)\<close>
  cases and an optional default, which comes last. The source functions and the
  flattened functions are both trees of this type.
\<close>

datatype ('x, 's, 'e) stmt =
    ExprStatement "('x, 's, 'e) act"
  | Block "('x, 's, 'e) stmt list"
  | If "('x, 's, 'e) act" "('x, 's, 'e) stmt" "('x, 's, 'e) stmt option"
  | Loop bool "('x, 's, 'e) act" "('x, 's, 'e) act option" "('x, 's, 'e) stmt"
  | Switch "('x, 's, 'e) act" "(int \<times> ('x, 's, 'e) stmt list) list" "('x, 's, 'e) stmt list option"
  | Break
  | Continue
  | Return "('x, 's, 'e) act option"

definition While :: "('x, 's, 'e) act \<Rightarrow> ('x, 's, 'e) stmt \<Rightarrow> ('x, 's, 'e) stmt" where
  "While c b = Loop True c None b"

definition DoWhile :: "('x, 's, 'e) stmt \<Rightarrow> ('x, 's, 'e) act \<Rightarrow> ('x, 's, 'e) stmt" where
  "DoWhile b c = Loop False c None b"

definition For :: "('x, 's, 'e) act \<Rightarrow> ('x, 's, 'e) act \<Rightarrow> ('x, 's, 'e) act \<Rightarrow> ('x, 's, 'e) stmt \<Rightarrow>
    ('x, 's, 'e) stmt" where
  "For init c step b = Block [ExprStatement init, Loop True c (Some step) b]"

datatype flow = Normal | Broke | Continued | Returned "int option" | Fuel_out

text \<open>
  Modelled from the spec: execution of a statement tree, with the meaning the statements
  have in C. \<open>exec n callee t x ev\<close> runs \<open>t\<close> from store \<open>x\<close> with the events
  \<open>ev\<close> emitted so far and tells how control leaves \<open>t\<close>. A \<open>continue\<close> in the
  body of a \<open>for\<close> goes on with the increment. A \<open>Switch\<close> enters at the first
  case whose label is the value (at the default when there is none) and runs on through
  the cases after it until a \<open>Break\<close>. The fuel \<open>n\<close> bounds the number of loop-body
  executions along a path: a loop that would start a body with no fuel left stops with
  \<open>Fuel_out\<close>, and so does an expression with a call that does not return.
\<close>

function exec :: "nat \<Rightarrow> ('s, 'e) callees \<Rightarrow> ('x, 's, 'e) stmt \<Rightarrow> 'x \<Rightarrow> 'e list \<Rightarrow> flow \<times> 'x \<times> 'e list"
  and exec_list :: "nat \<Rightarrow> ('s, 'e) callees \<Rightarrow> ('x, 's, 'e) stmt list \<Rightarrow> 'x \<Rightarrow> 'e list \<Rightarrow> flow \<times> 'x \<times> 'e list"
  and exec_cases :: "nat \<Rightarrow> ('s, 'e) callees \<Rightarrow> int \<Rightarrow> bool \<Rightarrow> (int \<times> ('x, 's, 'e) stmt list) list \<Rightarrow>
      ('x, 's, 'e) stmt list option \<Rightarrow> 'x \<Rightarrow> 'e list \<Rightarrow> flow \<times> 'x \<times> 'e list"
where
  "exec n callee (ExprStatement a) x ev =
     (case perform callee a x of
        None \<Rightarrow> (Fuel_out, x, ev)
      | Some (v, x', out) \<Rightarrow> (Normal, x', ev @ out))"
| "exec n callee (Block ss) x ev = exec_list n callee ss x ev"
| "exec n callee (If c t e) x ev =
     (case perform callee c x of
        None \<Rightarrow> (Fuel_out, x, ev)
      | Some (v, x', out) \<Rightarrow>
          if v \<noteq> 0 then exec n callee t x' (ev @ out)
          else (case e of
                  None \<Rightarrow> (Normal, x', ev @ out)
                | Some e' \<Rightarrow> exec n callee e' x' (ev @ out)))"
| "exec n callee (Loop test_first c step b) x ev =
     (case (if test_first then perform callee c x else Some (1, x, [])) of
        None \<Rightarrow> (Fuel_out, x, ev)
      | Some (v, x1, out) \<Rightarrow>
          if v = 0 then (Normal, x1, ev @ out)
          else if n = 0 then (Fuel_out, x1, ev @ out)
          else
            (case exec n callee b x1 (ev @ out) of
               (fl, x2, ev2) \<Rightarrow>
                 if fl = Normal \<or> fl = Continued then
                   (case step of
                      None \<Rightarrow> exec (n - 1) callee (Loop True c step b) x2 ev2
                    | Some a \<Rightarrow>
                        (case perform callee a x2 of
                           None \<Rightarrow> (Fuel_out, x2, ev2)
                         | Some (w, x3, out3) \<Rightarrow>
                             exec (n - 1) callee (Loop True c step b) x3 (ev2 @ out3)))
                 else if fl = Broke then (Normal, x2, ev2)
                 else (fl, x2, ev2)))"
| "exec n callee (Switch a cases dflt) x ev =
     (case perform callee a x of
        None \<Rightarrow> (Fuel_out, x, ev)
      | Some (v, x', out) \<Rightarrow>
          (case exec_cases n callee v False cases dflt x' (ev @ out) of
             (fl, x2, ev2) \<Rightarrow> (if fl = Broke then Normal else fl, x2, ev2)))"
| "exec n callee Break x ev = (Broke, x, ev)"
| "exec n callee Continue x ev = (Continued, x, ev)"
| "exec n callee (Return None) x ev = (Returned None, x, ev)"
| "exec n callee (Return (Some a)) x ev =
     (case perform callee a x of
        None \<Rightarrow> (Fuel_out, x, ev)
      | Some (v, x', out) \<Rightarrow> (Returned (Some v), x', ev @ out))"
| "exec_list n callee [] x ev = (Normal, x, ev)"
| "exec_list n callee (t # ts) x ev =
     (case exec n callee t x ev of
        (fl, x', ev') \<Rightarrow> if fl = Normal then exec_list n callee ts x' ev' else (fl, x', ev'))"
| "exec_cases n callee v matched [] dflt x ev =
     (case dflt of None \<Rightarrow> (Normal, x, ev) | Some ss \<Rightarrow> exec_list n callee ss x ev)"
| "exec_cases n callee v matched ((l, ss) # rest) dflt x ev =
     (if matched \<or> l = v then
        (case exec_list n callee ss x ev of
           (fl, x', ev') \<Rightarrow>
             if fl = Normal then exec_cases n callee v True rest dflt x' ev' else (fl, x', ev'))
      else exec_cases n callee v False rest dflt x ev)"
  by pat_completeness auto
termination
  apply (relation "inv_image (less_than <*lex*> less_than)
     (\<lambda>z. case z of
        Inl (n, callee, t, x, ev) \<Rightarrow> (n, size t)
      | Inr (Inl (n, callee, ts, x, ev)) \<Rightarrow> (n, size_list size ts)
      | Inr (Inr (n, callee, v, m, cs, d, x, ev)) \<Rightarrow>
          (n, size_list (size_prod (\<lambda>_. 0) (size_list size)) cs + size_option (size_list size) d))")
  apply auto
  done

declare exec.simps(4) [simp del]

subsection \<open>Control-flow graphs\<close>

text \<open>
  Modelled from the spec: Basic Block and Function CFG of section 3. The id of a block
  is its index in the block array. A \<open>Return_edge\<close> (the \<open>Return\<close> terminator of the
  spec) leads to the canonical exit block, its expression stored on the edge.
\<close>

datatype ('x, 's, 'e) terminator =
    Fallthrough nat
  | Branch "('x, 's, 'e) act" nat nat
  | Return_edge "('x, 's, 'e) act option"
  | SwitchDispatch "('x, 's, 'e) act" "(int \<times> nat) list" nat

record ('x, 's, 'e) basic_block =
  statements :: "('x, 's, 'e) act list"
  terminator :: "('x, 's, 'e) terminator"

record ('x, 's, 'e) function_cfg =
  entry :: nat
  exit :: nat
  blocks :: "('x, 's, 'e) basic_block list"

text \<open>
  Modelled from the spec: execution of a Function CFG. A block runs its statements in
  order and then its terminator, which evaluates its expression once and picks the edge;
  \<open>SwitchDispatch\<close> takes the first case with the value, else the default. Reaching
  the exit block ends the function. The fuel bounds the number of blocks run; a run is
  \<open>Interrupted\<close> at an expression with a call that does not return.
\<close>

datatype 'a attempt = Finished 'a | Interrupted 'a

fun run_statements :: "('s, 'e) callees \<Rightarrow> ('x, 's, 'e) act list \<Rightarrow> 'x \<Rightarrow> 'e list \<Rightarrow>
    ('x \<times> 'e list) attempt" where
  "run_statements callee [] x ev = Finished (x, ev)"
| "run_statements callee (a # as) x ev =
     (case perform callee a x of
        None \<Rightarrow> Interrupted (x, ev)
      | Some (v, x', out) \<Rightarrow> run_statements callee as x' (ev @ out))"

datatype edge = Goto nat | Leave "int option"

fun follow :: "('s, 'e) callees \<Rightarrow> ('x, 's, 'e) terminator \<Rightarrow> 'x \<Rightarrow> 'e list \<Rightarrow>
    (edge \<times> 'x \<times> 'e list) attempt" where
  "follow callee (Fallthrough t) x ev = Finished (Goto t, x, ev)"
| "follow callee (Branch c t e) x ev =
     (case perform callee c x of
        None \<Rightarrow> Interrupted (Goto t, x, ev)
      | Some (v, x', out) \<Rightarrow> Finished (Goto (if v \<noteq> 0 then t else e), x', ev @ out))"
| "follow callee (Return_edge None) x ev = Finished (Leave None, x, ev)"
| "follow callee (Return_edge (Some a)) x ev =
     (case perform callee a x of
        None \<Rightarrow> Interrupted (Leave None, x, ev)
      | Some (v, x', out) \<Rightarrow> Finished (Leave (Some v), x', ev @ out))"
| "follow callee (SwitchDispatch a cs d) x ev =
     (case perform callee a x of
        None \<Rightarrow> Interrupted (Goto d, x, ev)
      | Some (v, x', out) \<Rightarrow>
          Finished (Goto (case map_of cs v of Some t \<Rightarrow> t | None \<Rightarrow> d), x', ev @ out))"

definition run_block :: "('s, 'e) callees \<Rightarrow> ('x, 's, 'e) basic_block \<Rightarrow> 'x \<Rightarrow> 'e list \<Rightarrow>
    (edge \<times> 'x \<times> 'e list) attempt" where
  "run_block callee b x ev =
     (case run_statements callee (statements b) x ev of
        Interrupted (x', ev') \<Rightarrow> Interrupted (Leave None, x', ev')
      | Finished (x', ev') \<Rightarrow> follow callee (terminator b) x' ev')"

fun run_cfg :: "nat \<Rightarrow> ('s, 'e) callees \<Rightarrow> ('x, 's, 'e) function_cfg \<Rightarrow> nat \<Rightarrow> 'x \<Rightarrow> 'e list \<Rightarrow>
    (flow \<times> 'x \<times> 'e list) option" where
  "run_cfg n callee cfg pc x ev =
     (if pc = exit cfg then Some (Returned None, x, ev)
      else if length (blocks cfg) \<le> pc then None
      else
        (case n of
           0 \<Rightarrow> Some (Fuel_out, x, ev)
         | Suc m \<Rightarrow>
             (case run_block callee (blocks cfg ! pc) x ev of
                Interrupted (e, x', ev') \<Rightarrow> Some (Fuel_out, x', ev')
              | Finished (Goto pc', x', ev') \<Rightarrow> run_cfg m callee cfg pc' x' ev'
              | Finished (Leave r, x', ev') \<Rightarrow> Some (Returned r, x', ev'))))"

declare run_cfg.simps [simp del]

definition execute_cfg :: "nat \<Rightarrow> ('s, 'e) callees \<Rightarrow> ('x, 's, 'e) function_cfg \<Rightarrow> 'x \<Rightarrow>
    (flow \<times> 'x \<times> 'e list) option" where
  "execute_cfg n callee cfg x = run_cfg n callee cfg (entry cfg) x []"

subsection \<open>CFG Builder\<close>

text \<open>
  Modelled from the spec: section 4.3. The builder walks the body of a function and
  keeps the blocks made so far (a block not yet closed is \<open>None\<close>), the id of the
  current block and the straight-line statements collected for it. \<open>bs\<close> and \<open>cs\<close>
  are the stacks of break targets and continue targets of the enclosing constructs,
  innermost first, pushed for the body of a construct; \<open>ex\<close> is the exit block.

  \<^item> \<open>If\<close>: the current block ends with a \<open>Branch\<close> on the condition to a new block
    for each branch (to the join block when there is no \<open>else\<close>); both branches
    fall through to the new join block.
  \<^item> \<open>Loop\<close>: a new header block holds the test, a \<open>Branch\<close> to the body or to the
    join block; the body falls through to the condition-recheck point, which is the
    header, or for a \<open>for\<close> a new block with the increment that leads to the header;
    \<open>break\<close> goes to the join block and \<open>continue\<close> to the recheck point. The
    current block enters at the header, for \<open>do\<close> \<dots> \<open>while\<close> at the body.
  \<^item> \<open>Switch\<close>: the current block ends with a \<open>SwitchDispatch\<close> on the value to
    the first block of each case, in source order; the last block of a case falls
    through to the first block of the next case (of the default, of the join block
    after the last one); \<open>break\<close> goes to the join block.
  \<^item> \<open>Return\<close>, \<open>Break\<close>, \<open>Continue\<close>: the current block ends with the edge;
    the statements after it in the same list go to a new block that no edge reaches.
\<close>

type_synonym ('x, 's, 'e) builder =
  "('x, 's, 'e) basic_block option list \<times> nat \<times> ('x, 's, 'e) act list"

definition innermost :: "nat \<Rightarrow> nat list \<Rightarrow> nat" where
  "innermost ex stack = (case stack of [] \<Rightarrow> ex | t # ts \<Rightarrow> t)"

definition close_block :: "('x, 's, 'e) terminator \<Rightarrow> ('x, 's, 'e) builder \<Rightarrow>
    ('x, 's, 'e) basic_block option list" where
  "close_block T B =
     (case B of (cl, cur, pend) \<Rightarrow> cl[cur := Some \<lparr>statements = pend, terminator = T\<rparr>])"

function build :: "nat \<Rightarrow> nat list \<Rightarrow> nat list \<Rightarrow> ('x, 's, 'e) stmt \<Rightarrow> ('x, 's, 'e) builder \<Rightarrow>
    ('x, 's, 'e) builder"
  and build_list :: "nat \<Rightarrow> nat list \<Rightarrow> nat list \<Rightarrow> ('x, 's, 'e) stmt list \<Rightarrow> ('x, 's, 'e) builder \<Rightarrow>
    ('x, 's, 'e) builder"
  and build_cases :: "nat \<Rightarrow> nat list \<Rightarrow> nat list \<Rightarrow> nat \<Rightarrow> (int \<times> ('x, 's, 'e) stmt list) list \<Rightarrow>
    ('x, 's, 'e) stmt list option \<Rightarrow> ('x, 's, 'e) basic_block option list \<Rightarrow>
    ('x, 's, 'e) basic_block option list"
where
  "build ex bs cs (ExprStatement a) B = (case B of (cl, cur, pend) \<Rightarrow> (cl, cur, pend @ [a]))"
| "build ex bs cs (Block ss) B = build_list ex bs cs ss B"
| "build ex bs cs (If c t None) B =
     (let t_id = length (fst B);
          j_id = Suc (length (fst B));
          B1 = (close_block (Branch c t_id j_id) B @ [None, None], t_id, []);
          B2 = build ex bs cs t B1
      in (close_block (Fallthrough j_id) B2, j_id, []))"
| "build ex bs cs (If c t (Some e)) B =
     (let t_id = length (fst B);
          e_id = Suc (length (fst B));
          j_id = Suc (Suc (length (fst B)));
          B1 = (close_block (Branch c t_id e_id) B @ [None, None, None], t_id, []);
          B2 = build ex bs cs t B1;
          B3 = (close_block (Fallthrough j_id) B2, e_id, []);
          B4 = build ex bs cs e B3
      in (close_block (Fallthrough j_id) B4, j_id, []))"
| "build ex bs cs (Loop test_first c step b) B =
     (let h = length (fst B);
          b_id = Suc h;
          j_id = Suc (Suc h);
          l_id = Suc (Suc (Suc h));
          cont = (case step of None \<Rightarrow> h | Some a \<Rightarrow> l_id);
          latch = (case step of
                     None \<Rightarrow> []
                   | Some a \<Rightarrow> [Some \<lparr>statements = [a], terminator = Fallthrough h\<rparr>]);
          B1 = (close_block (Fallthrough (if test_first then h else b_id)) B @
                  [Some \<lparr>statements = [], terminator = Branch c b_id j_id\<rparr>, None, None] @ latch,
                b_id, []);
          B2 = build ex (j_id # bs) (cont # cs) b B1
      in (close_block (Fallthrough cont) B2, j_id, []))"
| "build ex bs cs (Switch v cases dflt) B =
     (let k = length (fst B);
          n = length cases;
          j_id = (case dflt of None \<Rightarrow> k + n | Some ss \<Rightarrow> Suc (k + n));
          table = zip (map fst cases) [k..<k + n];
          cl1 = close_block (SwitchDispatch v table (k + n)) B @ replicate (Suc (j_id - k)) None
      in (build_cases ex (j_id # bs) cs k cases dflt cl1, j_id, []))"
| "build ex bs cs Break B =
     (close_block (Fallthrough (innermost ex bs)) B @ [None], length (fst B), [])"
| "build ex bs cs Continue B =
     (close_block (Fallthrough (innermost ex cs)) B @ [None], length (fst B), [])"
| "build ex bs cs (Return r) B =
     (close_block (Return_edge r) B @ [None], length (fst B), [])"
| "build_list ex bs cs [] B = B"
| "build_list ex bs cs (t # ts) B = build_list ex bs cs ts (build ex bs cs t B)"
| "build_cases ex bs cs i [] None cl = cl"
| "build_cases ex bs cs i [] (Some ss) cl =
     close_block (Fallthrough (Suc i)) (build_list ex bs cs ss (cl, i, []))"
| "build_cases ex bs cs i ((l, ss) # rest) dflt cl =
     build_cases ex bs cs (Suc i) rest dflt
       (close_block (Fallthrough (Suc i)) (build_list ex bs cs ss (cl, i, [])))"
  by pat_completeness auto
termination
  apply (relation "measure
     (\<lambda>z. case z of
        Inl (ex, bs, cs, t, B) \<Rightarrow> size t
      | Inr (Inl (ex, bs, cs, ts, B)) \<Rightarrow> size_list size ts
      | Inr (Inr (ex, bs, cs, i, cases, d, cl)) \<Rightarrow>
          size_list (size_prod (\<lambda>_. 0) (size_list size)) cases + size_option (size_list size) d)")
  apply auto
  done

declare build.simps [simp del] build_list.simps [simp del] build_cases.simps [simp del]

text \<open>
  Modelled from the spec: a \<open>break\<close> or \<open>continue\<close> with no enclosing loop or
  switch is the build-time error \<open>InvalidControlFlow\<close> (sections 4.3 and 7).
  \<open>orphan inb inl t\<close> finds the first such statement of \<open>t\<close>, \<open>inb\<close> and \<open>inl\<close>
  telling whether \<open>t\<close> stands inside a construct that takes a \<open>break\<close> and a
  \<open>continue\<close>.
\<close>

datatype jump_kind = Orphan_break | Orphan_continue

datatype build_error = InvalidControlFlow jump_kind

function orphan :: "bool \<Rightarrow> bool \<Rightarrow> ('x, 's, 'e) stmt \<Rightarrow> jump_kind option"
  and orphan_list :: "bool \<Rightarrow> bool \<Rightarrow> ('x, 's, 'e) stmt list \<Rightarrow> jump_kind option"
  and orphan_cases :: "bool \<Rightarrow> bool \<Rightarrow> (int \<times> ('x, 's, 'e) stmt list) list \<Rightarrow>
      ('x, 's, 'e) stmt list option \<Rightarrow> jump_kind option"
where
  "orphan inb inl (ExprStatement a) = None"
| "orphan inb inl (Block ss) = orphan_list inb inl ss"
| "orphan inb inl (If c t e) =
     (case orphan inb inl t of
        Some k \<Rightarrow> Some k
      | None \<Rightarrow> (case e of None \<Rightarrow> None | Some e' \<Rightarrow> orphan inb inl e'))"
| "orphan inb inl (Loop test_first c step b) = orphan True True b"
| "orphan inb inl (Switch a cases dflt) = orphan_cases True inl cases dflt"
| "orphan inb inl Break = (if inb then None else Some Orphan_break)"
| "orphan inb inl Continue = (if inl then None else Some Orphan_continue)"
| "orphan inb inl (Return r) = None"
| "orphan_list inb inl [] = None"
| "orphan_list inb inl (t # ts) =
     (case orphan inb inl t of Some k \<Rightarrow> Some k | None \<Rightarrow> orphan_list inb inl ts)"
| "orphan_cases inb inl [] dflt =
     (case dflt of None \<Rightarrow> None | Some ss \<Rightarrow> orphan_list inb inl ss)"
| "orphan_cases inb inl ((l, ss) # rest) dflt =
     (case orphan_list inb inl ss of
        Some k \<Rightarrow> Some k
      | None \<Rightarrow> orphan_cases inb inl rest dflt)"
  by pat_completeness auto
termination
  apply (relation "measure
     (\<lambda>z. case z of
        Inl (inb, inl, t) \<Rightarrow> size t
      | Inr (Inl (inb, inl, ts)) \<Rightarrow> size_list size ts
      | Inr (Inr (inb, inl, cases, d)) \<Rightarrow>
          size_list (size_prod (\<lambda>_. 0) (size_list size)) cases + size_option (size_list size) d)")
  apply auto
  done

text \<open>
  Modelled from the spec: the Function CFG of a function body. Block 0 is the entry and
  block 1 the canonical exit; the block that is current at the end of the body falls
  through to the exit.
\<close>

definition finish_blocks :: "('x, 's, 'e) basic_block option list \<Rightarrow> ('x, 's, 'e) basic_block list" where
  "finish_blocks cl =
     map (\<lambda>b. case b of None \<Rightarrow> \<lparr>statements = [], terminator = Return_edge None\<rparr> | Some b' \<Rightarrow> b') cl"

definition build_function :: "('x, 's, 'e) stmt \<Rightarrow> build_error + ('x, 's, 'e) function_cfg" where
  "build_function body =
     (case orphan False False body of
        Some k \<Rightarrow> Inl (InvalidControlFlow k)
      | None \<Rightarrow>
          Inr \<lparr>entry = 0, exit = 1,
               blocks = finish_blocks
                 (close_block (Fallthrough 1) (build 1 [] [] body ([None, None], 0, [])))\<rparr>)"

subsection \<open>Flattening Pass\<close>

text \<open>
  Modelled from the spec: section 4.4. The flattened function has two variables beside
  the store of the function: the state variable and the carried return value. The
  statements of a block are lifted to this larger store unchanged.
\<close>

type_synonym 'x flat_store = "'x \<times> int \<times> int option"

primrec extend_outcome :: "(int \<Rightarrow> 'x \<Rightarrow> 'y) \<Rightarrow> ('x, 's, 'e) outcome \<Rightarrow> ('y, 's, 'e) outcome" where
  "extend_outcome g (Value v x out) = Value v (g v x) out"
| "extend_outcome g (Invoke f s k) = Invoke f s (\<lambda>r s'. extend_outcome g (k r s'))"

definition lift :: "('x, 's, 'e) act \<Rightarrow> ('x flat_store, 's, 'e) act" where
  "lift a = Act (lits a)
     (\<lambda>bs (x, st, r). extend_outcome (\<lambda>v x'. (x', st, r)) (sem a bs x))"

definition carry :: "('x, 's, 'e) act \<Rightarrow> ('x flat_store, 's, 'e) act" where
  "carry a = Act (lits a)
     (\<lambda>bs (x, st, r). extend_outcome (\<lambda>v x'. (x', st, Some v)) (sem a bs x))"

definition set_state :: "nat \<Rightarrow> ('x flat_store, 's, 'e) act" where
  "set_state k = Act [] (\<lambda>bs (x, st, r). Value (int k) (x, int k, r) [])"

definition read_state :: "('x flat_store, 's, 'e) act" where
  "read_state = Act [] (\<lambda>bs (x, st, r). Value st (x, st, r) [])"

definition not_done :: "nat \<Rightarrow> ('x flat_store, 's, 'e) act" where
  "not_done k = Act [] (\<lambda>bs (x, st, r). Value (if st \<noteq> int k then 1 else 0) (x, st, r) [])"

definition has_carried :: "('x flat_store, 's, 'e) act" where
  "has_carried = Act [] (\<lambda>bs (x, st, r). Value (if r = None then 0 else 1) (x, st, r) [])"

definition read_carried :: "('x flat_store, 's, 'e) act" where
  "read_carried = Act [] (\<lambda>bs (x, st, r). Value (case r of None \<Rightarrow> 0 | Some v \<Rightarrow> v) (x, st, r) [])"

text \<open>
  Modelled from the spec: the code that computes the next state from a terminator: a
  constant for \<open>Fallthrough\<close> and \<open>Return\<close>, a two-way choice on the condition for
  \<open>Branch\<close>, a value-to-state mapping for \<open>SwitchDispatch\<close>. A \<open>Return\<close> state
  carries the return expression and sets the state of the exit block, the sentinel
  "done" state.
\<close>

definition goto_state :: "nat list \<Rightarrow> nat \<Rightarrow> ('x flat_store, 's, 'e) stmt" where
  "goto_state numbering t = ExprStatement (set_state (numbering ! t))"

fun next_state_code :: "nat list \<Rightarrow> nat \<Rightarrow> ('x, 's, 'e) terminator \<Rightarrow> ('x flat_store, 's, 'e) stmt list" where
  "next_state_code numbering ex (Fallthrough t) = [goto_state numbering t, Break]"
| "next_state_code numbering ex (Branch c t e) =
     [If (lift c) (goto_state numbering t) (Some (goto_state numbering e)), Break]"
| "next_state_code numbering ex (Return_edge None) = [goto_state numbering ex, Break]"
| "next_state_code numbering ex (Return_edge (Some a)) =
     [ExprStatement (carry a), goto_state numbering ex, Break]"
| "next_state_code numbering ex (SwitchDispatch a cs d) =
     [Switch (lift a)
        (map (\<lambda>(l, t). (l, [goto_state numbering t, Break])) cs)
        (Some [goto_state numbering d]),
      Break]"

text \<open>
  Modelled from the spec: one arm per block (the statements of the block, then the
  next-state code), one dispatch construct keyed on the state variable, one loop around
  it that continues while not done; after the loop the carried value is returned.
\<close>

definition arm :: "nat list \<Rightarrow> nat \<Rightarrow> ('x, 's, 'e) basic_block \<Rightarrow> ('x flat_store, 's, 'e) stmt list" where
  "arm numbering ex b =
     map (\<lambda>a. ExprStatement (lift a)) (statements b) @
     next_state_code numbering ex (terminator b)"

definition dispatch :: "nat list \<Rightarrow> ('x, 's, 'e) function_cfg \<Rightarrow> ('x flat_store, 's, 'e) stmt" where
  "dispatch numbering cfg =
     Switch read_state
       (map (\<lambda>i. (int (numbering ! i), arm numbering (exit cfg) (blocks cfg ! i)))
          [0..<length (blocks cfg)])
       None"

definition return_carried :: "('x flat_store, 's, 'e) stmt" where
  "return_carried = If has_carried (Return (Some read_carried)) (Some (Return None))"

record ('x, 's, 'e) flattened_function =
  state_count :: nat
  state_to_block :: "(nat \<times> nat) list"
  tree :: "('x flat_store, 's, 'e) stmt"

definition flatten :: "nat list \<Rightarrow> ('x, 's, 'e) function_cfg \<Rightarrow> ('x, 's, 'e) flattened_function" where
  "flatten numbering cfg =
     \<lparr>state_count = length (blocks cfg),
      state_to_block = zip numbering [0..<length (blocks cfg)],
      tree = Block
        [goto_state numbering (entry cfg),
         While (not_done (numbering ! exit cfg)) (dispatch numbering cfg),
         return_carried]\<rparr>"

text \<open>
  Modelled from the spec: the numbering gives each block a distinct state id in the
  range \<open>[0, K)\<close>, \<open>K\<close> the number of blocks; block creation order is one such numbering.
\<close>

definition valid_numbering :: "nat list \<Rightarrow> ('x, 's, 'e) function_cfg \<Rightarrow> bool" where
  "valid_numbering numbering cfg =
     (length numbering = length (blocks cfg) \<and> distinct numbering \<and>
      list_all (\<lambda>k. k < length (blocks cfg)) numbering)"

definition creation_order :: "('x, 's, 'e) function_cfg \<Rightarrow> nat list" where
  "creation_order cfg = [0..<length (blocks cfg)]"

text \<open>
  What is observable of a run of the flattened function: how it ended (the return value
  included), the store of the function and the events. The two variables the pass
  introduced are not.
\<close>

definition observe :: "flow \<times> 'x flat_store \<times> 'e list \<Rightarrow> flow \<times> 'x \<times> 'e list" where
  "observe r = (case r of (fl, (x, st, c), ev) \<Rightarrow> (fl, x, ev))"

definition execute_flattened :: "nat \<Rightarrow> ('s, 'e) callees \<Rightarrow> ('x flat_store, 's, 'e) stmt \<Rightarrow> 'x \<Rightarrow>
    flow \<times> 'x \<times> 'e list" where
  "execute_flattened n callee t x = observe (exec n callee t (x, 0, None) [])"

subsection \<open>String-Encryption Pass\<close>

text \<open>
  Modelled from the spec: section 4.5. The pass visits every literal of the statement
  tree, in order, and replaces each literal still in the clear by its encryption under
  the next key of the key generator of the function; the use site is left as it is and
  reads the decrypted bytes.
\<close>

type_synonym key_generator = "nat \<Rightarrow> byte list"

fun encrypt_lits :: "key_generator \<Rightarrow> nat \<Rightarrow> lit list \<Rightarrow> lit list \<times> nat" where
  "encrypt_lits keygen c [] = ([], c)"
| "encrypt_lits keygen c (Plain bs # ls) =
     (case encrypt_lits keygen (Suc c) ls of
        (ls', c') \<Rightarrow> (Encrypted (encrypt (keygen c) bs) # ls', c'))"
| "encrypt_lits keygen c (Encrypted e # ls) =
     (case encrypt_lits keygen c ls of (ls', c') \<Rightarrow> (Encrypted e # ls', c'))"

definition encrypt_act :: "key_generator \<Rightarrow> nat \<Rightarrow> ('x, 's, 'e) act \<Rightarrow> ('x, 's, 'e) act \<times> nat" where
  "encrypt_act keygen c a =
     (case encrypt_lits keygen c (lits a) of (ls, c') \<Rightarrow> (Act ls (sem a), c'))"

function encrypt_stmt :: "key_generator \<Rightarrow> nat \<Rightarrow> ('x, 's, 'e) stmt \<Rightarrow> ('x, 's, 'e) stmt \<times> nat"
  and encrypt_stmts :: "key_generator \<Rightarrow> nat \<Rightarrow> ('x, 's, 'e) stmt list \<Rightarrow> ('x, 's, 'e) stmt list \<times> nat"
  and encrypt_cases :: "key_generator \<Rightarrow> nat \<Rightarrow> (int \<times> ('x, 's, 'e) stmt list) list \<Rightarrow>
      (int \<times> ('x, 's, 'e) stmt list) list \<times> nat"
where
  "encrypt_stmt keygen c (ExprStatement a) =
     (case encrypt_act keygen c a of (a', c1) \<Rightarrow> (ExprStatement a', c1))"
| "encrypt_stmt keygen c (Block ss) =
     (case encrypt_stmts keygen c ss of (ss', c1) \<Rightarrow> (Block ss', c1))"
| "encrypt_stmt keygen c (If a t None) =
     (case encrypt_act keygen c a of (a', c1) \<Rightarrow>
      case encrypt_stmt keygen c1 t of (t', c2) \<Rightarrow> (If a' t' None, c2))"
| "encrypt_stmt keygen c (If a t (Some e)) =
     (case encrypt_act keygen c a of (a', c1) \<Rightarrow>
      case encrypt_stmt keygen c1 t of (t', c2) \<Rightarrow>
      case encrypt_stmt keygen c2 e of (e', c3) \<Rightarrow> (If a' t' (Some e'), c3))"
| "encrypt_stmt keygen c (Loop test_first a None b) =
     (case encrypt_act keygen c a of (a', c1) \<Rightarrow>
      case encrypt_stmt keygen c1 b of (b', c2) \<Rightarrow> (Loop test_first a' None b', c2))"
| "encrypt_stmt keygen c (Loop test_first a (Some st) b) =
     (case encrypt_act keygen c a of (a', c1) \<Rightarrow>
      case encrypt_act keygen c1 st of (st', c2) \<Rightarrow>
      case encrypt_stmt keygen c2 b of (b', c3) \<Rightarrow> (Loop test_first a' (Some st') b', c3))"
| "encrypt_stmt keygen c (Switch a cs None) =
     (case encrypt_act keygen c a of (a', c1) \<Rightarrow>
      case encrypt_cases keygen c1 cs of (cs', c2) \<Rightarrow> (Switch a' cs' None, c2))"
| "encrypt_stmt keygen c (Switch a cs (Some ss)) =
     (case encrypt_act keygen c a of (a', c1) \<Rightarrow>
      case encrypt_cases keygen c1 cs of (cs', c2) \<Rightarrow>
      case encrypt_stmts keygen c2 ss of (ss', c3) \<Rightarrow> (Switch a' cs' (Some ss'), c3))"
| "encrypt_stmt keygen c Break = (Break, c)"
| "encrypt_stmt keygen c Continue = (Continue, c)"
| "encrypt_stmt keygen c (Return None) = (Return None, c)"
| "encrypt_stmt keygen c (Return (Some a)) =
     (case encrypt_act keygen c a of (a', c1) \<Rightarrow> (Return (Some a'), c1))"
| "encrypt_stmts keygen c [] = ([], c)"
| "encrypt_stmts keygen c (t # ts) =
     (case encrypt_stmt keygen c t of (t', c1) \<Rightarrow>
      case encrypt_stmts keygen c1 ts of (ts', c2) \<Rightarrow> (t' # ts', c2))"
| "encrypt_cases keygen c [] = ([], c)"
| "encrypt_cases keygen c ((l, ss) # rest) =
     (case encrypt_stmts keygen c ss of (ss', c1) \<Rightarrow>
      case encrypt_cases keygen c1 rest of (rest', c2) \<Rightarrow> ((l, ss') # rest', c2))"
  by pat_completeness auto
termination
  apply (relation "measure
     (\<lambda>z. case z of
        Inl (keygen, c, t) \<Rightarrow> size t
      | Inr (Inl (keygen, c, ts)) \<Rightarrow> size_list size ts
      | Inr (Inr (keygen, c, cs)) \<Rightarrow> size_list (size_prod (\<lambda>_. 0) (size_list size)) cs)")
  apply auto
  done

text \<open>
  Modelled from the spec: pass order is flatten, then encrypt (section 4.5); the
  option \<open>encrypt_strings\<close> of the configuration (section 6) selects the second pass.
\<close>

definition obfuscate :: "key_generator \<Rightarrow> bool \<Rightarrow> nat list \<Rightarrow> ('x, 's, 'e) function_cfg \<Rightarrow>
    ('x flat_store, 's, 'e) stmt" where
  "obfuscate keygen encrypt_strings numbering cfg =
     (if encrypt_strings then fst (encrypt_stmt keygen 0 (tree (flatten numbering cfg)))
      else tree (flatten numbering cfg))"

declare encrypt_stmt.simps [simp del] encrypt_stmts.simps [simp del] encrypt_cases.simps [simp del]

subsection \<open>Programs\<close>

text \<open>
  Modelled from the spec: a program is the list of its function bodies, a function
  index is a position in the list. A call starts the body of the callee on the initial
  store the caller made for it and returns the value of the \<open>return\<close> statement
  (none when the body ends without one), the final store and the events.
  \<open>call_source n P\<close> gives the calls of the original program \<open>P\<close> that return
  within \<open>n\<close> nested calls and \<open>n\<close> loop-body executions on each path;
  \<open>call_obfuscated n Q\<close> does so for the transformed program, whose functions are
  flattened statement trees started with state and carried value unset.
\<close>

definition function_result :: "flow \<times> 'x \<times> 'e list \<Rightarrow> (int option \<times> 'x \<times> 'e list) option" where
  "function_result res =
     (case res of (fl, x, ev) \<Rightarrow>
        (case fl of
           Normal \<Rightarrow> Some (None, x, ev)
         | Returned r \<Rightarrow> Some (r, x, ev)
         | Broke \<Rightarrow> None
         | Continued \<Rightarrow> None
         | Fuel_out \<Rightarrow> None))"

fun call_source :: "nat \<Rightarrow> ('s, 's, 'e) stmt list \<Rightarrow> ('s, 'e) callees" where
  "call_source 0 P = (\<lambda>f s. None)"
| "call_source (Suc n) P =
     (\<lambda>f s. if f < length P then function_result (exec n (call_source n P) (P ! f) s []) else None)"

fun call_obfuscated :: "nat \<Rightarrow> ('s flat_store, 's, 'e) stmt list \<Rightarrow> ('s, 'e) callees" where
  "call_obfuscated 0 Q = (\<lambda>f s. None)"
| "call_obfuscated (Suc n) Q =
     (\<lambda>f s. if f < length Q
        then function_result (execute_flattened n (call_obfuscated n Q) (Q ! f) s) else None)"

text \<open>
  Modelled from the spec: the pipeline for one function (build the CFG, flatten,
  encrypt) and for a translation unit: function by function, each with its own key
  generator, in declaration order; the first error aborts the unit (section 5).
\<close>

definition obfuscate_function :: "key_generator \<Rightarrow> bool \<Rightarrow> (('x, 's, 'e) function_cfg \<Rightarrow> nat list) \<Rightarrow>
    ('x, 's, 'e) stmt \<Rightarrow> build_error + ('x flat_store, 's, 'e) stmt" where
  "obfuscate_function keygen encrypt_strings numbering body =
     (case build_function body of
        Inl e \<Rightarrow> Inl e
      | Inr cfg \<Rightarrow> Inr (obfuscate keygen encrypt_strings (numbering cfg) cfg))"

fun obfuscate_program :: "(nat \<Rightarrow> key_generator) \<Rightarrow> bool \<Rightarrow> (('x, 's, 'e) function_cfg \<Rightarrow> nat list) \<Rightarrow>
    nat \<Rightarrow> ('x, 's, 'e) stmt list \<Rightarrow> build_error + ('x flat_store, 's, 'e) stmt list" where
  "obfuscate_program keygens encrypt_strings numbering i [] = Inr []"
| "obfuscate_program keygens encrypt_strings numbering i (b # bs) =
     (case obfuscate_function (keygens i) encrypt_strings numbering b of
        Inl e \<Rightarrow> Inl e
      | Inr t \<Rightarrow>
          (case obfuscate_program keygens encrypt_strings numbering (Suc i) bs of
             Inl e \<Rightarrow> Inl e
           | Inr ts \<Rightarrow> Inr (t # ts)))"

subsection \<open>src/examples/control\_flow.c as a program\<close>

text \<open>
  The four functions of control\_flow.c as statement trees, statement by statement. The
  store of a function has its parameter (\<open>value\<close>, \<open>n\<close>, \<open>code\<close>), the local
  \<open>result\<close> (\<open>sum\<close> in \<open>complex_loops\<close>) and the loop counters \<open>i\<close> and \<open>j\<close>.
  An event is a call of \<open>printf\<close>: the bytes of the format and the integer arguments.
\<close>

datatype io_call = Printf "byte list" "int list"

record frame =
  v_arg :: int
  v_result :: int
  v_i :: int
  v_j :: int

text \<open>
Expressions: an assignment, a value read from the store, a comparison.
\<close>

definition assign :: "('x \<Rightarrow> 'x) \<Rightarrow> ('x, 's, 'e) act" where
  "assign f = Act [] (\<lambda>bs x. Value 0 (f x) [])"

definition rvalue :: "('x \<Rightarrow> int) \<Rightarrow> ('x, 's, 'e) act" where
  "rvalue f = Act [] (\<lambda>bs x. Value (f x) x [])"

definition test :: "('x \<Rightarrow> bool) \<Rightarrow> ('x, 's, 'e) act" where
  "test p = Act [] (\<lambda>bs x. Value (if p x then 1 else 0) x [])"

text \<open>
  A call \<open>f(a)\<close> starts \<open>f\<close> on a store with parameter \<open>a\<close>. The statement
  \<open>printf(fmt, f(a))\<close> calls \<open>f\<close>, then prints: one event, after those of the call.
\<close>

definition enter :: "int \<Rightarrow> frame" where
  "enter a = \<lparr>v_arg = a, v_result = 0, v_i = 0, v_j = 0\<rparr>"

definition printf_of_call :: "string \<Rightarrow> nat \<Rightarrow> int \<Rightarrow> ('x, frame, io_call) act" where
  "printf_of_call fmt f a =
     Act [Plain (bytes_of fmt)]
       (\<lambda>bs x. Invoke f (enter a)
          (\<lambda>r s'. Value 0 x [Printf (hd bs) [case r of None \<Rightarrow> 0 | Some v \<Rightarrow> v]]))"

definition process_value_body :: "(frame, 's, 'e) stmt" where
  "process_value_body =
     Block
       [ExprStatement (assign (\<lambda>x. x\<lparr>v_result := 0\<rparr>)),
        If (test (\<lambda>x. v_arg x > 100))
          (Block
            [If (test (\<lambda>x. v_arg x smod 2 = 0))
               (Block [ExprStatement (assign (\<lambda>x. x\<lparr>v_result := v_arg x sdiv 2\<rparr>))])
               (Some (Block [ExprStatement (assign (\<lambda>x. x\<lparr>v_result := (v_arg x * 3) + 1\<rparr>))]))])
          (Some
            (If (test (\<lambda>x. v_arg x > 50))
               (Block
                 [If (test (\<lambda>x. v_arg x smod 3 = 0))
                    (Block [ExprStatement (assign (\<lambda>x. x\<lparr>v_result := v_arg x * 3\<rparr>))])
                    (Some (Block [ExprStatement (assign (\<lambda>x. x\<lparr>v_result := v_arg x - 10\<rparr>))]))])
               (Some
                 (Block
                   [If (test (\<lambda>x. v_arg x smod 2 = 0))
                      (Block [ExprStatement (assign (\<lambda>x. x\<lparr>v_result := v_arg x * v_arg x\<rparr>))])
                      (Some (Block [ExprStatement (assign (\<lambda>x. x\<lparr>v_result := v_arg x + 1\<rparr>))]))])))),
        Return (Some (rvalue v_result))]"

definition complex_loops_body :: "(frame, 's, 'e) stmt" where
  "complex_loops_body =
     Block
       [ExprStatement (assign (\<lambda>x. x\<lparr>v_result := 0\<rparr>)),
        For (assign (\<lambda>x. x\<lparr>v_i := 0\<rparr>)) (test (\<lambda>x. v_i x < v_arg x)) (assign (\<lambda>x. x\<lparr>v_i := v_i x + 1\<rparr>))
          (Block
            [If (test (\<lambda>x. v_i x smod 3 = 0)) (Block [Continue]) None,
             For (assign (\<lambda>x. x\<lparr>v_j := 0\<rparr>)) (test (\<lambda>x. v_j x < v_i x)) (assign (\<lambda>x. x\<lparr>v_j := v_j x + 1\<rparr>))
               (Block
                 [ExprStatement (assign (\<lambda>x. x\<lparr>v_result := v_result x + v_i x * v_j x\<rparr>)),
                  If (test (\<lambda>x. v_result x > 1000)) (Block [Break]) None]),
             If (test (\<lambda>x. v_result x > 2000)) (Block [Break]) None]),
        Return (Some (rvalue v_result))]"

definition complex_switch_body :: "(frame, 's, 'e) stmt" where
  "complex_switch_body =
     Block
       [ExprStatement (assign (\<lambda>x. x\<lparr>v_result := 0\<rparr>)),
        Switch (rvalue v_arg)
          [(1, [ExprStatement (assign (\<lambda>x. x\<lparr>v_result := 100\<rparr>)), Break]),
           (2, [ExprStatement (assign (\<lambda>x. x\<lparr>v_result := 200\<rparr>))]),
           (3, [ExprStatement (assign (\<lambda>x. x\<lparr>v_result := v_result x + 300\<rparr>)), Break]),
           (4, []),
           (5, [ExprStatement (assign (\<lambda>x. x\<lparr>v_result := 500\<rparr>)), Break])]
          (Some [ExprStatement (assign (\<lambda>x. x\<lparr>v_result := - 1\<rparr>))]),
        If (test (\<lambda>x. v_result x > 0))
          (Block
            [Switch (rvalue v_result)
               [(100, [Return (Some (rvalue (\<lambda>x. v_result x * 2)))]),
                (200, []),
                (500, [Return (Some (rvalue (\<lambda>x. v_result x sdiv 2)))]),
                (600, [Return (Some (rvalue (\<lambda>x. v_result x - 100)))])]
               (Some [Return (Some (rvalue v_result))])])
          None,
        Return (Some (rvalue v_result))]"

text \<open>
  \<open>main\<close>, and the translation unit: \<open>process_value\<close> is function 0,
  \<open>complex_loops\<close> function 1, \<open>complex_switch\<close> function 2, \<open>main\<close> function 3.
\<close>

definition control_flow_main_body :: "(frame, frame, io_call) stmt" where
  "control_flow_main_body =
     Block
       [ExprStatement (printf_of_call (''Processing 120: %d'' @ [CHR 0x0A]) 0 120),
        ExprStatement (printf_of_call (''Processing 75: %d'' @ [CHR 0x0A]) 0 75),
        ExprStatement (printf_of_call (''Processing 30: %d'' @ [CHR 0x0A]) 0 30),
        ExprStatement (printf_of_call (''Complex loops with n=10: %d'' @ [CHR 0x0A]) 1 10),
        ExprStatement (printf_of_call (''Switch with code 1: %d'' @ [CHR 0x0A]) 2 1),
        ExprStatement (printf_of_call (''Switch with code 2: %d'' @ [CHR 0x0A]) 2 2),
        ExprStatement (printf_of_call (''Switch with code 4: %d'' @ [CHR 0x0A]) 2 4),
        Return (Some (rvalue (\<lambda>x. 0)))]"

definition control_flow_c :: "(frame, frame, io_call) stmt list" where
  "control_flow_c =
     [process_value_body, complex_loops_body, complex_switch_body, control_flow_main_body]"

text \<open>
The calls of \<open>printf\<close> of a run of \<open>main\<close>, in order.
\<close>

definition control_flow_output :: "io_call list" where
  "control_flow_output =
     [Printf (bytes_of (''Processing 120: %d'' @ [CHR 0x0A])) [60],
      Printf (bytes_of (''Processing 75: %d'' @ [CHR 0x0A])) [225],
      Printf (bytes_of (''Processing 30: %d'' @ [CHR 0x0A])) [900],
      Printf (bytes_of (''Complex loops with n=10: %d'' @ [CHR 0x0A])) [447],
      Printf (bytes_of (''Switch with code 1: %d'' @ [CHR 0x0A])) [200],
      Printf (bytes_of (''Switch with code 2: %d'' @ [CHR 0x0A])) [250],
      Printf (bytes_of (''Switch with code 4: %d'' @ [CHR 0x0A])) [250]]"

text \<open>A key generator: the key of literal \<open>i\<close> is two bytes.\<close>

definition example_keys :: key_generator where
  "example_keys i = [0x5A, of_nat i]"

subsection \<open>Auxiliary notions for the simulation\<close>

text \<open>
  Builder states: the current block is open; a later state has grown out of an earlier
  one when every block closed before is unchanged and the statements pending then begin
  the block that was current.
\<close>

definition open_at :: "('x, 's, 'e) builder \<Rightarrow> bool" where
  "open_at B = (case B of (cl, cur, pend) \<Rightarrow> cur < length cl \<and> cl ! cur = None)"

definition arm_count :: "'a list \<Rightarrow> 'b option \<Rightarrow> nat" where
  "arm_count cases dflt = length cases + (case dflt of None \<Rightarrow> 0 | Some d \<Rightarrow> 1)"

definition grown :: "('x, 's, 'e) builder \<Rightarrow> ('x, 's, 'e) builder \<Rightarrow> bool" where
  "grown B B' =
     (case B of (cl, cur, pend) \<Rightarrow> case B' of (cl', cur', pend') \<Rightarrow>
        cur' < length cl' \<and> cl' ! cur' = None \<and> length cl \<le> length cl' \<and>
        (\<forall>i<length cl. i \<noteq> cur \<longrightarrow> cl' ! i = cl ! i) \<and>
        (cur' = cur \<and> (\<exists>X. pend' = pend @ X) \<or>
         length cl \<le> cur' \<and> (\<exists>X T. cl' ! cur = Some \<lparr>statements = pend @ X, terminator = T\<rparr>)))"

definition arms_grown :: "nat \<Rightarrow> nat \<Rightarrow> ('x, 's, 'e) basic_block option list \<Rightarrow>
    ('x, 's, 'e) basic_block option list \<Rightarrow> bool" where
  "arms_grown i k cl cl' =
     (length cl \<le> length cl' \<and> (\<forall>j<length cl. j < i \<or> i + k \<le> j \<longrightarrow> cl' ! j = cl ! j))"

text \<open>
  A CFG extends a builder state when it has the closed blocks of the state and the
  pending statements at the start of the current block. \<open>reach\<close>: a run from one
  block start gets to another in \<open>j\<close> blocks, whatever fuel remains; \<open>lands\<close>: it
  ends the function; \<open>stuck\<close>: it is cut off, with at least fuel \<open>n\<close>.
  \<open>simulates\<close> relates the result of a statement to the run of the blocks built from it.
\<close>

definition extends :: "('x, 's, 'e) basic_block option list \<Rightarrow> ('x, 's, 'e) function_cfg \<Rightarrow> bool" where
  "extends cl G = (\<forall>i<length cl. \<forall>b. cl ! i = Some b \<longrightarrow> i < length (blocks G) \<and> blocks G ! i = b)"

definition ext :: "('x, 's, 'e) builder \<Rightarrow> ('x, 's, 'e) function_cfg \<Rightarrow> bool" where
  "ext B G =
     (case B of (cl, cur, pend) \<Rightarrow>
        extends cl G \<and> cur < length (blocks G) \<and>
        (\<exists>X T. blocks G ! cur = \<lparr>statements = pend @ X, terminator = T\<rparr>))"

definition reach :: "('s, 'e) callees \<Rightarrow> ('x, 's, 'e) function_cfg \<Rightarrow> nat \<Rightarrow> 'x \<Rightarrow> 'e list \<Rightarrow> nat \<Rightarrow>
    nat \<Rightarrow> 'x \<Rightarrow> 'e list \<Rightarrow> bool" where
  "reach callee G pc s ev j pc' s' ev' =
     (\<forall>m. run_cfg (m + j) callee G pc s ev = run_cfg m callee G pc' s' ev')"

definition lands :: "('s, 'e) callees \<Rightarrow> ('x, 's, 'e) function_cfg \<Rightarrow> nat \<Rightarrow> 'x \<Rightarrow> 'e list \<Rightarrow> nat \<Rightarrow>
    flow \<times> 'x \<times> 'e list \<Rightarrow> bool" where
  "lands callee G pc s ev j r = (\<forall>m. run_cfg (m + j) callee G pc s ev = Some r)"

definition stuck :: "('s, 'e) callees \<Rightarrow> ('x, 's, 'e) function_cfg \<Rightarrow> nat \<Rightarrow> 'x \<Rightarrow> 'e list \<Rightarrow> nat \<Rightarrow> bool" where
  "stuck callee G pc s ev n =
     (\<exists>j\<ge>n. \<exists>s' ev'. run_cfg j callee G pc s ev = Some (Fuel_out, s', ev'))"

definition simulates :: "nat \<Rightarrow> ('s, 'e) callees \<Rightarrow> ('x, 's, 'e) function_cfg \<Rightarrow> nat \<Rightarrow> 'x \<Rightarrow> 'e list \<Rightarrow>
    flow \<times> 'x \<times> 'e list \<Rightarrow> nat \<Rightarrow> ('x, 's, 'e) act list \<Rightarrow> nat \<Rightarrow> nat \<Rightarrow> bool" where
  "simulates n callee G pc s0 ev0 res pcN pendN pcB pcC =
     (case res of (fl, s', ev') \<Rightarrow>
        (case fl of
           Normal \<Rightarrow> \<exists>j s1 ev1. reach callee G pc s0 ev0 j pcN s1 ev1 \<and>
                      run_statements callee pendN s1 ev1 = Finished (s', ev')
         | Broke \<Rightarrow> \<exists>j. reach callee G pc s0 ev0 j pcB s' ev'
         | Continued \<Rightarrow> \<exists>j. reach callee G pc s0 ev0 j pcC s' ev'
         | Returned r \<Rightarrow> \<exists>j. lands callee G pc s0 ev0 j (Returned r, s', ev')
         | Fuel_out \<Rightarrow> stuck callee G pc s0 ev0 n))"

fun first_match :: "int \<Rightarrow> int list \<Rightarrow> nat" where
  "first_match v [] = 0"
| "first_match v (l # ls) = (if l = v then 0 else Suc (first_match v ls))"

text \<open>
  Call tables ordered by the calls they answer, and a table that is the limit of an
  increasing sequence of tables.
\<close>

definition sub_callees :: "('s, 'e) callees \<Rightarrow> ('s, 'e) callees \<Rightarrow> bool" where
  "sub_callees callee callee' = (\<forall>f s r. callee f s = Some r \<longrightarrow> callee' f s = Some r)"

definition approximates :: "(nat \<Rightarrow> ('s, 'e) callees) \<Rightarrow> ('s, 'e) callees \<Rightarrow> bool" where
  "approximates level limit =
     ((\<forall>k k'. k \<le> k' \<longrightarrow> sub_callees (level k) (level k')) \<and>
      (\<forall>k. sub_callees (level k) limit) \<and>
      (\<forall>f s r. limit f s = Some r \<longrightarrow> (\<exists>k. level k f s = Some r)))"

text \<open>
  The state of the flattened function after the arm of a block, given the edge the block
  takes; and the effect of the statement after the loop on the result of the loop.
\<close>

definition after_edge :: "nat list \<Rightarrow> nat \<Rightarrow> int \<Rightarrow> (edge \<times> 'x \<times> 'e list) attempt \<Rightarrow>
    flow \<times> 'x flat_store \<times> 'e list" where
  "after_edge numbering ex st att =
     (case att of
        Finished (Goto p, x, ev) \<Rightarrow> (Broke, (x, int (numbering ! p), None), ev)
      | Finished (Leave v, x, ev) \<Rightarrow> (Broke, (x, int (numbering ! ex), v), ev)
      | Interrupted (e, x, ev) \<Rightarrow> (Fuel_out, (x, st, None), ev))"

definition finish :: "flow \<times> 'x flat_store \<times> 'e list \<Rightarrow> flow \<times> 'x flat_store \<times> 'e list" where
  "finish res = (case res of (fl, (x, st, r), ev) \<Rightarrow> (if fl = Normal then Returned r else fl, (x, st, r), ev))"

section \<open>Results for src/examples/control\_flow.c\<close>

text \<open>
  C1, as the code has it. \<open>process_value(120)\<close> returns 60 and \<open>process_value(30)\<close>
  returns 900; \<open>process_value(75)\<close> returns 225: 75 is above 50 and divisible by 3, so
  the branch \<open>result = value * 3\<close> is taken, not \<open>result = value - 10\<close>.
\<close>

theorem process_value_examples:
  "process_value 120 = 60 \<and> process_value 75 = 225 \<and> process_value 30 = 900"
  by (simp add: process_value_def signed_divide_int_def signed_modulo_int_def)

text \<open>C1, as stated, with 65 for \<open>process_value(75)\<close>, does not hold.\<close>

theorem process_value_75_counterexample:
  "\<not> (process_value 120 = 60 \<and> process_value 75 = 65 \<and> process_value 30 = 900)"
  by (simp add: process_value_def signed_divide_int_def signed_modulo_int_def)

text \<open>
  C2. \<open>complex_switch(2)\<close> returns 250: the arm of \<open>case 2\<close> sets \<open>result\<close> to 200
  and falls through into the arm of \<open>case 3\<close>, which makes it 500; the nested
  \<open>switch\<close> on 500 returns \<open>result / 2 = 250\<close>.
\<close>

theorem complex_switch_2:
  "case_2_arm 0 = 200 \<and> first_switch 2 0 = case_3_arm (case_2_arm 0) \<and>
   first_switch 2 0 = 500 \<and> nested_switch 500 = 500 sdiv 2 \<and> complex_switch 2 = 250"
  by (simp add: complex_switch_def first_switch_def nested_switch_def
      case_2_arm_def case_3_arm_def signed_divide_int_def)

lemma complex_loops_run_10:
  "complex_loops_run 10 =
     (447, [Continue_Outer, Continue_Outer, Continue_Outer, Continue_Outer])"
  by (simp add: complex_loops_run_def complex_loops_outer.simps complex_loops_inner.simps
      signed_modulo_int_def)

text \<open>
  C4, as the code has it. In the run of \<open>complex_loops(10)\<close> the \<open>continue\<close> guarded by
  \<open>i % 3 == 0\<close> is taken (four times, for \<open>i\<close> = 0, 3, 6, 9) and neither \<open>break\<close> is
  taken: \<open>sum\<close> ends at 447 and never exceeds 1000.
\<close>

theorem complex_loops_10_jumps:
  "complex_loops_jumps 10 = [Continue_Outer, Continue_Outer, Continue_Outer, Continue_Outer] \<and>
   Continue_Outer \<in> set (complex_loops_jumps 10) \<and>
   Break_Inner \<notin> set (complex_loops_jumps 10) \<and>
   Break_Outer \<notin> set (complex_loops_jumps 10) \<and>
   complex_loops 10 = 447"
  by (simp add: complex_loops_jumps_def complex_loops_def complex_loops_run_10)

text \<open>C4, as stated: the run of \<open>complex_loops(10)\<close> does not take all three jumps.\<close>

theorem complex_loops_10_counterexample:
  "\<not> (Continue_Outer \<in> set (complex_loops_jumps 10) \<and>
      Break_Inner \<in> set (complex_loops_jumps 10) \<and>
      Break_Outer \<in> set (complex_loops_jumps 10))"
  by (simp add: complex_loops_jumps_def complex_loops_run_10)

text \<open>
  Beyond the call with 10: with \<open>n = 12\<close> the inner \<open>break\<close> is taken. The outer
  \<open>break\<close> is taken for no \<open>n\<close>: once \<open>sum\<close> exceeds 1000 (it then is 1007) every
  later inner loop adds \<open>i * 0\<close> and breaks at once, so \<open>sum\<close> never exceeds 2000.
\<close>

lemma complex_loops_12_inner_break:
  "Break_Inner \<in> set (complex_loops_jumps 12) \<and> complex_loops 12 = 1007"
  by (simp add: complex_loops_jumps_def complex_loops_def complex_loops_run_def
      complex_loops_outer.simps complex_loops_inner.simps signed_modulo_int_def)

lemma complex_loops_inner_saturated:
  "0 < i \<Longrightarrow> 1000 < sum1 \<Longrightarrow>
   complex_loops_inner i 0 sum1 jumps = (sum1, jumps @ [Break_Inner])"
  by (subst complex_loops_inner.simps) simp

lemma complex_loops_outer_saturated:
  "0 < i \<Longrightarrow> 1000 < sum1 \<Longrightarrow> sum1 \<le> 2000 \<Longrightarrow> Break_Outer \<notin> set jumps \<Longrightarrow>
   fst (complex_loops_outer n i sum1 jumps) = sum1 \<and>
   Break_Outer \<notin> set (snd (complex_loops_outer n i sum1 jumps))"
proof (induction n i sum1 jumps rule: complex_loops_outer.induct)
  case (1 n i sum1 jumps)
  show ?case
  proof (cases "i < n")
    case False
    then show ?thesis using "1.prems" by (subst (1 2) complex_loops_outer.simps) simp
  next
    case True
    show ?thesis
    proof (cases "i smod 3 = 0")
      case c: True
      have "complex_loops_outer n i sum1 jumps =
          complex_loops_outer n (i + 1) sum1 (jumps @ [Continue_Outer])"
        using True c by (subst complex_loops_outer.simps) simp
      then show ?thesis using "1.IH"(1) [OF True c] "1.prems" by simp
    next
      case c: False
      have inner: "complex_loops_inner i 0 sum1 jumps = (sum1, jumps @ [Break_Inner])"
        using "1.prems" by (simp add: complex_loops_inner_saturated)
      have "complex_loops_outer n i sum1 jumps =
          complex_loops_outer n (i + 1) sum1 (jumps @ [Break_Inner])"
        using True c "1.prems" by (subst complex_loops_outer.simps) (simp add: inner)
      then show ?thesis
        using "1.IH"(2) [OF True c inner [symmetric]] "1.prems" by simp
    qed
  qed
qed

lemma complex_loops_run_from_12:
  "12 \<le> n \<Longrightarrow> complex_loops_run n =
     complex_loops_outer n 12 1007
       [Continue_Outer, Continue_Outer, Continue_Outer, Continue_Outer, Break_Inner]"
  by (simp add: complex_loops_run_def complex_loops_outer.simps [of n 0]
      complex_loops_outer.simps [of n 1] complex_loops_outer.simps [of n 2]
      complex_loops_outer.simps [of n 3] complex_loops_outer.simps [of n 4]
      complex_loops_outer.simps [of n 5] complex_loops_outer.simps [of n 6]
      complex_loops_outer.simps [of n 7] complex_loops_outer.simps [of n 8]
      complex_loops_outer.simps [of n 9] complex_loops_outer.simps [of n 10]
      complex_loops_outer.simps [of n 11]
      complex_loops_inner.simps signed_modulo_int_def)

lemma complex_loops_outer_break_dead: "Break_Outer \<notin> set (complex_loops_jumps n)"
proof (cases "12 \<le> n")
  case True
  then show ?thesis
    using complex_loops_outer_saturated [of 12 1007
        "[Continue_Outer, Continue_Outer, Continue_Outer, Continue_Outer, Break_Inner]" n]
    by (simp add: complex_loops_jumps_def complex_loops_run_from_12)
next
  case False
  then consider "n \<le> 0" | "n = 1" | "n = 2" | "n = 3" | "n = 4" | "n = 5" | "n = 6"
    | "n = 7" | "n = 8" | "n = 9" | "n = 10" | "n = 11"
    by atomize_elim arith
  then show ?thesis
    by cases
      (simp_all add: complex_loops_jumps_def complex_loops_run_def complex_loops_outer.simps
        complex_loops_inner.simps signed_modulo_int_def)
qed

section \<open>Results for src/examples/fibonacci.c\<close>

text \<open>
  C3. The recursive \<open>fibonacci\<close> and the loop-based \<open>fibonacci_iterative\<close> both return
  55 when called with 10.
\<close>

theorem fibonacci_10:
  "fibonacci 10 = 55 \<and> fibonacci_iterative 10 = 55"
  by (simp add: fibonacci_iterative_def fibonacci.simps fibonacci_iterative_loop.simps)

lemma fibonacci_int: "fibonacci (int k) = fibonacci_number k"
proof (induction k rule: fibonacci_number.induct)
  case 1
  show ?case by (simp add: fibonacci.simps)
next
  case 2
  show ?case by (simp add: fibonacci.simps)
next
  case (3 k)
  have p1: "int (Suc (Suc k)) - 1 = int (Suc k)" by simp
  have p2: "int (Suc (Suc k)) - 2 = int k" by simp
  have "\<not> int (Suc (Suc k)) \<le> 1" by simp
  then have "fibonacci (int (Suc (Suc k))) =
      fibonacci (int (Suc (Suc k)) - 1) + fibonacci (int (Suc (Suc k)) - 2)"
    by (subst fibonacci.simps) (simp only: if_False)
  also have "\<dots> = fibonacci_number (Suc k) + fibonacci_number k"
    unfolding p1 p2 using "3.IH" by simp
  finally show ?case by simp
qed

lemma fibonacci_iterative_loop_int:
  "fibonacci_iterative_loop (int m + int d) (int m + 1)
     (fibonacci_number (m - 1)) (fibonacci_number m) = fibonacci_number (m + d)"
  if "1 \<le> m"
  using that
proof (induction d arbitrary: m)
  case 0
  then show ?case by (subst fibonacci_iterative_loop.simps) simp
next
  case (Suc d)
  obtain j where m: "m = Suc j" using Suc.prems by (cases m) auto
  have cond: "int m + 1 \<le> int m + int (Suc d)" by simp
  have "fibonacci_iterative_loop (int m + int (Suc d)) (int m + 1)
          (fibonacci_number (m - 1)) (fibonacci_number m) =
        fibonacci_iterative_loop (int m + int (Suc d)) (int m + 1 + 1)
          (fibonacci_number m) (fibonacci_number (m - 1) + fibonacci_number m)"
    using cond by (subst fibonacci_iterative_loop.simps) (simp only: if_True Let_def)
  also have "\<dots> = fibonacci_iterative_loop (int (Suc m) + int d) (int (Suc m) + 1)
          (fibonacci_number (Suc m - 1)) (fibonacci_number (Suc m))"
    by (simp add: m algebra_simps)
  also have "\<dots> = fibonacci_number (Suc m + d)"
    by (rule Suc.IH) simp
  finally show ?case by simp
qed

text \<open>
  C8. For every integer \<open>n\<close>, \<open>fibonacci\<close> and \<open>fibonacci_iterative\<close> return the same
  value under exact integer arithmetic: both return \<open>n\<close> when \<open>n \<le> 1\<close>, and both
  return the \<open>n\<close>th Fibonacci number when \<open>n \<ge> 2\<close>.
\<close>

theorem fibonacci_agree:
  "fibonacci n = fibonacci_iterative n \<and>
   (n \<le> 1 \<longrightarrow> fibonacci n = n \<and> fibonacci_iterative n = n) \<and>
   (2 \<le> n \<longrightarrow> fibonacci n = fibonacci_number (nat n) \<and>
                 fibonacci_iterative n = fibonacci_number (nat n))"
proof (cases "n \<le> 1")
  case True
  then show ?thesis by (simp add: fibonacci_iterative_def fibonacci.simps)
next
  case False
  define d where "d = nat (n - 2)"
  have n: "n = int 1 + int (Suc d)" and nn: "nat n = 1 + Suc d"
    using False by (simp_all add: d_def)
  have r: "fibonacci n = fibonacci_number (nat n)"
    using fibonacci_int [of "nat n"] False by simp
  have "fibonacci_iterative n = fibonacci_iterative_loop n 2 0 1"
    using False by (simp add: fibonacci_iterative_def)
  also have "\<dots> = fibonacci_iterative_loop (int 1 + int (Suc d)) (int 1 + 1)
      (fibonacci_number (1 - 1)) (fibonacci_number 1)"
    by (simp add: n)
  also have "\<dots> = fibonacci_number (1 + Suc d)"
    by (rule fibonacci_iterative_loop_int) simp
  also have "\<dots> = fibonacci_number (nat n)"
    by (simp only: nn)
  finally show ?thesis using r False by simp
qed

theorem fibonacci_agree_witness:
  "fibonacci 10 = fibonacci_iterative 10 \<and> fibonacci 10 = fibonacci_number (nat 10) \<and>
   fibonacci_iterative 10 = fibonacci_number (nat 10) \<and>
   fibonacci (- 3) = - 3 \<and> fibonacci_iterative (- 3) = - 3"
  using fibonacci_agree [of 10] fibonacci_agree [of "- 3"]
  by simp

section \<open>Results for src/rustcc/tests/complex.c\<close>

text \<open>
  C10. \<open>main\<close> of complex.c returns 110: \<open>z\<close> reaches 53 after the branch and the two
  loops, \<open>factorial(4) = 24\<close>, \<open>fibonacci(7) = 13\<close>, \<open>calculate_sum\<close> over
  \<open>{5, 10, 15, 20, 25}\<close> is 75, so \<open>result = 53 + (24 * 13) / (75 % 10 + 1) = 105\<close>,
  and since \<open>105 % 3 == 0\<close> the \<open>switch\<close> adds 5.
\<close>

theorem complex_main_110:
  "complex_main_z = 53 \<and> factorial 4 = 24 \<and> complex_fibonacci 7 = 13 \<and>
   calculate_sum [5, 10, 15, 20, 25] 5 = Some 75 \<and>
   complex_main_result = Some (53 + (24 * 13) sdiv (75 smod 10 + 1)) \<and>
   complex_main_result = Some 105 \<and> (105::int) smod 3 = 0 \<and>
   complex_main_switch 105 = 105 + 5 \<and> complex_main = Some 110"
  by (simp add: complex_main_def complex_main_result_def complex_main_z_def
      complex_main_switch_def calculate_sum_def signed_modulo_int_def signed_divide_int_def
      factorial.simps complex_fibonacci.simps calculate_sum_loop.simps
      complex_main_for.simps complex_main_while.simps)

section \<open>Results for src/examples/string\_encryption.c\<close>

lemma strcmp_zero_iff:
  "NUL \<in> set s1 \<Longrightarrow> NUL \<in> set s2 \<Longrightarrow>
   \<exists>r. strcmp s1 s2 = Some r \<and> (r = 0 \<longleftrightarrow> c_str s1 = c_str s2)"
proof (induction s1 s2 rule: strcmp.induct)
  case (1 c1 s1 c2 s2)
  show ?case
  proof (cases "c1 = c2")
    case False
    then have "(of_char c1 :: int) \<noteq> of_char c2" by simp
    with False show ?thesis by (auto simp: c_str_def)
  next
    case True
    show ?thesis
    proof (cases "c1 = NUL")
      case nul: True
      with True show ?thesis by (simp add: c_str_def)
    next
      case False
      with True "1.prems" have "NUL \<in> set s1" "NUL \<in> set s2" by auto
      with "1.IH" True False show ?thesis by (simp add: c_str_def)
    qed
  qed
qed simp_all

lemma c_str_string_literal: "NUL \<notin> set s \<Longrightarrow> c_str (string_literal s) = s"
  by (induction s) (auto simp: c_str_def string_literal_def)

text \<open>
  C9. For every pair of NUL-terminated strings, \<open>authenticate\<close> returns 1 if the
  username is \<open>admin\<close> and the password is \<open>supersecret123\<close>, byte for byte, and
  returns 0 otherwise.
\<close>

theorem authenticate_iff:
  assumes "NUL \<in> set username" and "NUL \<in> set password"
  shows "authenticate username password =
           Some (if c_str username = ''admin'' \<and> c_str password = ''supersecret123''
                 then 1 else 0)"
proof -
  have lu: "NUL \<in> set (string_literal ''admin'')"
    and lp: "NUL \<in> set (string_literal ''supersecret123'')"
    by (simp_all add: string_literal_def)
  have cu: "c_str (string_literal ''admin'') = ''admin''"
    and cp: "c_str (string_literal ''supersecret123'') = ''supersecret123''"
    by (simp_all add: c_str_string_literal NUL_def)
  obtain r1 where r1: "strcmp username (string_literal ''admin'') = Some r1"
    "r1 = 0 \<longleftrightarrow> c_str username = ''admin''"
    using strcmp_zero_iff [OF assms(1) lu] cu by auto
  obtain r2 where r2: "strcmp password (string_literal ''supersecret123'') = Some r2"
    "r2 = 0 \<longleftrightarrow> c_str password = ''supersecret123''"
    using strcmp_zero_iff [OF assms(2) lp] cp by auto
  show ?thesis
    using r1 r2 by (simp add: authenticate_def Let_def)
qed

theorem authenticate_iff_witness:
  "NUL \<in> set (string_literal ''admin'') \<and> NUL \<in> set (string_literal ''supersecret123'') \<and>
   NUL \<in> set (string_literal ''root'') \<and>
   authenticate (string_literal ''admin'') (string_literal ''supersecret123'') = Some 1 \<and>
   authenticate (string_literal ''root'') (string_literal ''supersecret123'') = Some 0"
  using authenticate_iff [of "string_literal ''admin''" "string_literal ''supersecret123''"]
    authenticate_iff [of "string_literal ''root''" "string_literal ''supersecret123''"]
  by (simp add: string_literal_def c_str_def NUL_def)

section \<open>Results for the text of the corpus\<close>

text \<open>
  C5, as the code has it. The compound-assignment operators do appear in the corpus:
  \<open>+=\<close> in \<open>complex_loops\<close> (control\_flow.c, line 54) and in \<open>calculate_sum\<close>
  (complex.c, line 21), \<open>-=\<close> in \<open>main\<close> of complex.c (line 71).
\<close>

theorem compound_assignment_in_corpus:
  "occurs ''+='' control_flow_c_line_54 \<and> occurs ''+='' complex_c_line_21 \<and>
   occurs ''-='' complex_c_line_71"
  by (simp add: control_flow_c_line_54_def complex_c_line_21_def complex_c_line_71_def)

text \<open>
  C5, as stated: it is not the case that neither operator occurs in the two lines the
  claim points at.
\<close>

theorem no_compound_assignment_counterexample:
  "\<not> (\<not> occurs ''+='' control_flow_c_line_54 \<and> \<not> occurs ''-='' control_flow_c_line_54 \<and>
      \<not> occurs ''+='' complex_c_line_21 \<and> \<not> occurs ''-='' complex_c_line_21)"
  by (simp add: control_flow_c_line_54_def complex_c_line_21_def)

section \<open>Results for the String-Encryption Pass\<close>

lemma combine_combine: "combine key i (combine key i bs) = bs"
  by (induction bs arbitrary: i) (simp_all add: xor.assoc)

text \<open>
  The pass replaces literals in the clear only, and each by its encryption; what the use
  sites read stays the same.
\<close>

lemma lit_bytes_encrypt_lits:
  "map lit_bytes (fst (encrypt_lits keygen c ls)) = map lit_bytes ls"
proof (induction ls arbitrary: c)
  case Nil
  show ?case by simp
next
  case (Cons l ls)
  show ?case
  proof (cases l)
    case (Plain bs)
    obtain ls' c' where e: "encrypt_lits keygen (Suc c) ls = (ls', c')"
      by (cases "encrypt_lits keygen (Suc c) ls") auto
    show ?thesis using Cons.IH [of "Suc c"] Plain e
      by (simp add: decrypt_def encrypt_def combine_combine)
  next
    case (Encrypted x)
    obtain ls' c' where e: "encrypt_lits keygen c ls = (ls', c')"
      by (cases "encrypt_lits keygen c ls") auto
    show ?thesis using Cons.IH [of c] Encrypted e by simp
  qed
qed

text \<open>
  C7. For every string literal \<open>L\<close> and every key, decrypting the encryption of \<open>L\<close>
  gives back exactly the bytes of \<open>L\<close>; so it does for the empty literal and for the
  literal \<open>"%d "\<close>, which holds a format specifier. The use site of a literal the
  String-Encryption Pass has replaced reads the bytes of the original literal.
\<close>

theorem decrypt_encrypt:
  "decrypt (cipher (encrypt key L)) (literal_key (encrypt key L)) = L \<and>
   original (encrypt key L) = L \<and>
   decrypt (cipher (encrypt key [])) (literal_key (encrypt key [])) = [] \<and>
   decrypt (cipher (encrypt key (bytes_of ''%d ''))) (literal_key (encrypt key (bytes_of ''%d '')))
     = bytes_of ''%d '' \<and>
   lit_bytes (Encrypted (encrypt key L)) = L \<and>
   map lit_bytes (fst (encrypt_lits keygen c ls)) = map lit_bytes ls"
  by (simp add: decrypt_def encrypt_def combine_combine lit_bytes_encrypt_lits)

section \<open>Results for the transformation pipeline\<close>

subsection \<open>The builder only adds to what it has built\<close>

lemma grown_refl: "open_at B \<Longrightarrow> grown B B"
  by (auto simp: grown_def open_at_def split: prod.splits)

lemma grown_trans:
  assumes "grown B B1" and "grown B1 B2" and "open_at B"
  shows "grown B B2"
proof -
  obtain cl cur pend where B: "B = (cl, cur, pend)" by (cases B)
  obtain cl1 cur1 pend1 where B1: "B1 = (cl1, cur1, pend1)" by (cases B1)
  obtain cl2 cur2 pend2 where B2: "B2 = (cl2, cur2, pend2)" by (cases B2)
  have o: "cur < length cl" "cl ! cur = None" using assms(3) by (simp_all add: B open_at_def)
  have g1: "cur1 < length cl1" "cl1 ! cur1 = None" "length cl \<le> length cl1"
    "\<forall>i<length cl. i \<noteq> cur \<longrightarrow> cl1 ! i = cl ! i"
    "cur1 = cur \<and> (\<exists>X. pend1 = pend @ X) \<or>
       length cl \<le> cur1 \<and> (\<exists>X T. cl1 ! cur = Some \<lparr>statements = pend @ X, terminator = T\<rparr>)"
    using assms(1) by (simp_all add: B B1 grown_def)
  have g2: "cur2 < length cl2" "cl2 ! cur2 = None" "length cl1 \<le> length cl2"
    "\<forall>i<length cl1. i \<noteq> cur1 \<longrightarrow> cl2 ! i = cl1 ! i"
    "cur2 = cur1 \<and> (\<exists>X. pend2 = pend1 @ X) \<or>
       length cl1 \<le> cur2 \<and> (\<exists>X T. cl2 ! cur1 = Some \<lparr>statements = pend1 @ X, terminator = T\<rparr>)"
    using assms(2) by (simp_all add: B1 B2 grown_def)
  have keep: "\<forall>i<length cl. i \<noteq> cur \<longrightarrow> cl2 ! i = cl ! i"
  proof (intro allI impI)
    fix i assume i: "i < length cl" "i \<noteq> cur"
    show "cl2 ! i = cl ! i"
    proof (cases "i = cur1")
      case True
      with g1(5) i have "length cl \<le> cur1" by auto
      with True i show ?thesis by simp
    next
      case False
      then show ?thesis using g1(3,4) g2(4) i by auto
    qed
  qed
  have last: "cur2 = cur \<and> (\<exists>X. pend2 = pend @ X) \<or>
       length cl \<le> cur2 \<and> (\<exists>X T. cl2 ! cur = Some \<lparr>statements = pend @ X, terminator = T\<rparr>)"
  proof (cases "cur1 = cur")
    case True
    then obtain X where X: "pend1 = pend @ X" using g1(5) o by auto
    from g2(5) show ?thesis
    proof
      assume "cur2 = cur1 \<and> (\<exists>X. pend2 = pend1 @ X)"
      then show ?thesis using True X by auto
    next
      assume a: "length cl1 \<le> cur2 \<and>
        (\<exists>X T. cl2 ! cur1 = Some \<lparr>statements = pend1 @ X, terminator = T\<rparr>)"
      then have "length cl \<le> cur2" using g1(3) by simp
      moreover have "\<exists>X T. cl2 ! cur = Some \<lparr>statements = pend @ X, terminator = T\<rparr>"
        using a True X by auto
      ultimately show ?thesis by simp
    qed
  next
    case False
    then have c1: "length cl \<le> cur1"
      and X: "\<exists>X T. cl1 ! cur = Some \<lparr>statements = pend @ X, terminator = T\<rparr>"
      using g1(5) by auto
    have "cur < length cl1" using o g1(3) by simp
    then have "cl2 ! cur = cl1 ! cur" using g2(4) False by auto
    moreover have "length cl \<le> cur2" using g2(5) c1 g1(3) by auto
    ultimately show ?thesis using X by simp
  qed
  show ?thesis
    using g2(1,2) g1(3) g2(3) keep last by (simp add: B B2 grown_def)
qed

lemma grown_open: "grown B B' \<Longrightarrow> open_at B'"
  by (auto simp: grown_def open_at_def split: prod.splits)

lemma length_close_block [simp]: "length (close_block T B) = length (fst B)"
  by (simp add: close_block_def split: prod.splits)

lemma grown_start:
  assumes "open_at B" and "length (fst B) \<le> c" and "c < length (fst B) + length extra"
    and "extra ! (c - length (fst B)) = None"
  shows "grown B (close_block T B @ extra, c, [])"
proof -
  obtain cl cur pend where B: "B = (cl, cur, pend)" by (cases B)
  have o: "cur < length cl" "cl ! cur = None" using assms(1) by (simp_all add: B open_at_def)
  show ?thesis
    using assms(2-4) o
    by (auto simp: B grown_def close_block_def nth_append)
qed

lemma grown_close:
  assumes "grown B Bm" and "open_at B" and "length (fst B) \<le> fst (snd Bm)"
    and "j < length (fst Bm)" and "fst Bm ! j = None" and "j \<noteq> fst (snd Bm)"
    and "length (fst B) \<le> j"
  shows "grown B (close_block T Bm, j, [])"
proof -
  obtain cl cur pend where B: "B = (cl, cur, pend)" by (cases B)
  obtain clm curm pendm where Bm: "Bm = (clm, curm, pendm)" by (cases Bm)
  have o: "cur < length cl" "cl ! cur = None" using assms(2) by (simp_all add: B open_at_def)
  have g: "curm < length clm" "length cl \<le> length clm"
    "\<forall>i<length cl. i \<noteq> cur \<longrightarrow> clm ! i = cl ! i"
    "cur = curm \<and> (\<exists>X. pendm = pend @ X) \<or>
       length cl \<le> curm \<and> (\<exists>X T. clm ! cur = Some \<lparr>statements = pend @ X, terminator = T\<rparr>)"
    using assms(1) by (auto simp add: B Bm grown_def)
  have c: "length cl \<le> curm" "j < length clm" "clm ! j = None" "j \<noteq> curm" "length cl \<le> j"
    using assms(3-7) by (simp_all add: B Bm)
  have "cur \<noteq> curm" using c(1) o(1) by simp
  then have closed: "\<exists>X T. clm ! cur = Some \<lparr>statements = pend @ X, terminator = T\<rparr>"
    using g(4) by auto
  show ?thesis
    using c g(1-3) o closed \<open>cur \<noteq> curm\<close>
    by (auto simp: B Bm grown_def close_block_def)
qed

lemma grown_carry:
  assumes "grown Bm Bn" and "j < length (fst Bm)" and "fst Bm ! j = None" and "j \<noteq> fst (snd Bm)"
  shows "j < length (fst Bn) \<and> fst Bn ! j = None \<and> j \<noteq> fst (snd Bn)"
  using assms by (auto simp: grown_def split: prod.splits)

lemma grown_current:
  assumes "grown Bm Bn" and "k \<le> fst (snd Bm)" and "k \<le> length (fst Bm)"
  shows "k \<le> fst (snd Bn)"
  using assms by (auto simp: grown_def split: prod.splits)

lemma grown_length: "grown Bm Bn \<Longrightarrow> length (fst Bm) \<le> length (fst Bn)"
  by (auto simp: grown_def split: prod.splits)

lemma grown_arm:
  assumes "grown (cl, i, []) Ba" and "i < length cl" and "j < length cl" and "j \<noteq> i"
  shows "close_block T Ba ! j = cl ! j"
  using assms by (auto simp: grown_def close_block_def split: prod.splits)

lemma grown_arm_length:
  assumes "grown (cl, i, []) Ba"
  shows "length cl \<le> length (close_block T Ba)"
  using assms by (auto simp: grown_def close_block_def split: prod.splits)

lemma build_grown:
  fixes B :: "('x, 's, 'e) builder" and t :: "('x, 's, 'e) stmt" and ts :: "('x, 's, 'e) stmt list"
    and cases :: "(int \<times> ('x, 's, 'e) stmt list) list" and dflt :: "('x, 's, 'e) stmt list option"
    and cl :: "('x, 's, 'e) basic_block option list"
  shows "open_at B \<longrightarrow> grown B (build ex bs cs t B)"
    and "open_at B \<longrightarrow> grown B (build_list ex bs cs ts B)"
    and "i + arm_count cases dflt \<le> length cl \<and> (\<forall>j. i \<le> j \<and> j < i + arm_count cases dflt \<longrightarrow> cl ! j = None) \<longrightarrow>
     arms_grown i (arm_count cases dflt) cl (build_cases ex bs cs i cases dflt cl)"
proof (induction ex bs cs t B and ex bs cs ts B and ex bs cs i cases dflt cl
    rule: build_build_list_build_cases.induct)
  case (1 ex bs cs a B)
  show ?case
    by (auto simp: build.simps grown_def open_at_def split: prod.splits)
next
  case (2 ex bs cs ss B)
  then show ?case by (simp add: build.simps)
next
  case (3 ex bs cs c t B)
  show ?case
  proof
    assume o: "open_at B"
    define k where "k = length (fst B)"
    define B1 :: "('x, 's, 'e) builder" where "B1 = (close_block (Branch c k (Suc k)) B @ [None, None], k, [])"
    define B2 where "B2 = build ex bs cs t B1"
    have g1: "grown B B1" unfolding B1_def
      by (rule grown_start [OF o]) (simp_all add: k_def)
    have g12: "grown B1 B2"
    proof -
      have "open_at B1 \<longrightarrow> grown B1 B2"
        unfolding B1_def B2_def k_def by (rule "3.IH" [OF refl refl refl])
      then show ?thesis using grown_open [OF g1] by simp
    qed
    have l1: "length (fst B1) = Suc (Suc k)"
      by (simp add: B1_def k_def close_block_def split: prod.splits)
    have j1: "Suc k < length (fst B1) \<and> fst B1 ! Suc k = None \<and> Suc k \<noteq> fst (snd B1)"
      by (simp add: B1_def k_def close_block_def nth_append split: prod.splits)
    have j2: "Suc k < length (fst B2) \<and> fst B2 ! Suc k = None \<and> Suc k \<noteq> fst (snd B2)"
      using grown_carry [OF g12] j1 by simp
    have c2: "k \<le> fst (snd B2)"
      by (rule grown_current [OF g12]) (simp_all add: B1_def k_def)
    have fin: "build ex bs cs (If c t None) B = (close_block (Fallthrough (Suc k)) B2, Suc k, [])"
      unfolding B2_def B1_def k_def by (simp add: build.simps Let_def)
    have "grown B (close_block (Fallthrough (Suc k)) B2, Suc k, [])"
      by (rule grown_close [OF grown_trans [OF g1 g12 o] o]) (use j2 c2 in \<open>simp_all add: k_def\<close>)
    then show "grown B (build ex bs cs (If c t None) B)"
      unfolding fin .
  qed
next
  case (4 ex bs cs c t e B)
  show ?case
  proof
    assume o: "open_at B"
    define k where "k = length (fst B)"
    define B1 :: "('x, 's, 'e) builder" where "B1 = (close_block (Branch c k (Suc k)) B @ [None, None, None], k, [])"
    define B2 where "B2 = build ex bs cs t B1"
    define B3 :: "('x, 's, 'e) builder" where "B3 = (close_block (Fallthrough (Suc (Suc k))) B2, Suc k, [])"
    define B4 where "B4 = build ex bs cs e B3"
    have g1: "grown B B1" unfolding B1_def
      by (rule grown_start [OF o]) (simp_all add: k_def)
    have g12: "grown B1 B2"
    proof -
      have "open_at B1 \<longrightarrow> grown B1 B2"
        unfolding B1_def B2_def k_def by (rule "4.IH"(1) [OF refl refl refl refl])
      then show ?thesis using grown_open [OF g1] by simp
    qed
    have l1: "length (fst B1) = Suc (Suc (Suc k))"
      by (simp add: B1_def k_def close_block_def split: prod.splits)
    have e1: "Suc k < length (fst B1) \<and> fst B1 ! Suc k = None \<and> Suc k \<noteq> fst (snd B1)"
      by (simp add: B1_def k_def close_block_def nth_append split: prod.splits)
    have j1: "Suc (Suc k) < length (fst B1) \<and> fst B1 ! Suc (Suc k) = None \<and> Suc (Suc k) \<noteq> fst (snd B1)"
      by (simp add: B1_def k_def close_block_def nth_append split: prod.splits)
    have e2: "Suc k < length (fst B2) \<and> fst B2 ! Suc k = None \<and> Suc k \<noteq> fst (snd B2)"
      using grown_carry [OF g12] e1 by simp
    have j2: "Suc (Suc k) < length (fst B2) \<and> fst B2 ! Suc (Suc k) = None \<and> Suc (Suc k) \<noteq> fst (snd B2)"
      using grown_carry [OF g12] j1 by simp
    have c2: "k \<le> fst (snd B2)"
      by (rule grown_current [OF g12]) (simp_all add: B1_def k_def)
    have g3: "grown B B3" unfolding B3_def
      by (rule grown_close [OF grown_trans [OF g1 g12 o] o]) (use e2 c2 in \<open>simp_all add: k_def\<close>)
    have g34: "grown B3 B4"
    proof -
      have "open_at B3 \<longrightarrow> grown B3 B4"
        unfolding B1_def B2_def B3_def B4_def k_def by (rule "4.IH"(2) [OF refl refl refl refl refl refl])
      then show ?thesis using grown_open [OF g3] by simp
    qed
    have j3: "Suc (Suc k) < length (fst B3) \<and> fst B3 ! Suc (Suc k) = None \<and> Suc (Suc k) \<noteq> fst (snd B3)"
      using j2 by (auto simp add: B3_def close_block_def split: prod.splits)
    have j4: "Suc (Suc k) < length (fst B4) \<and> fst B4 ! Suc (Suc k) = None \<and> Suc (Suc k) \<noteq> fst (snd B4)"
      using grown_carry [OF g34] j3 by simp
    have c4: "k \<le> fst (snd B4)"
      by (rule grown_current [OF g34]) (use j3 in \<open>simp_all add: B3_def\<close>)
    have fin: "build ex bs cs (If c t (Some e)) B = (close_block (Fallthrough (Suc (Suc k))) B4, Suc (Suc k), [])"
      unfolding B4_def B3_def B2_def B1_def k_def by (simp add: build.simps Let_def)
    have "grown B (close_block (Fallthrough (Suc (Suc k))) B4, Suc (Suc k), [])"
      by (rule grown_close [OF grown_trans [OF g3 g34 o] o]) (use j4 c4 in \<open>simp_all add: k_def\<close>)
    then show "grown B (build ex bs cs (If c t (Some e)) B)"
      unfolding fin .
  qed
next
  case (5 ex bs cs test_first c step b B)
  show ?case
  proof
    assume o: "open_at B"
    define h where "h = length (fst B)"
    define cont where "cont = (case step of None \<Rightarrow> h | Some a \<Rightarrow> Suc (Suc (Suc h)))"
    define latch where "latch = (case step of None \<Rightarrow> []
       | Some a \<Rightarrow> [Some \<lparr>statements = [a], terminator = Fallthrough h\<rparr>])"
    define B1 :: "('x, 's, 'e) builder" where "B1 = (close_block (Fallthrough (if test_first then h else Suc h)) B @
        [Some \<lparr>statements = [], terminator = Branch c (Suc h) (Suc (Suc h))\<rparr>, None, None] @ latch,
        Suc h, [])"
    define B2 where "B2 = build ex (Suc (Suc h) # bs) (cont # cs) b B1"
    have g1: "grown B B1" unfolding B1_def
      by (rule grown_start [OF o]) (simp_all add: h_def)
    have g12: "grown B1 B2"
    proof -
      have "open_at B1 \<longrightarrow> grown B1 B2"
        unfolding B1_def B2_def h_def cont_def latch_def by (rule "5.IH" [OF refl refl refl refl refl refl refl])
      then show ?thesis using grown_open [OF g1] by simp
    qed
    have j1: "Suc (Suc h) < length (fst B1) \<and> fst B1 ! Suc (Suc h) = None \<and> Suc (Suc h) \<noteq> fst (snd B1)"
      by (simp add: B1_def h_def close_block_def nth_append split: prod.splits)
    have j2: "Suc (Suc h) < length (fst B2) \<and> fst B2 ! Suc (Suc h) = None \<and> Suc (Suc h) \<noteq> fst (snd B2)"
      using grown_carry [OF g12] j1 by simp
    have c2: "h \<le> fst (snd B2)"
      by (rule grown_current [OF g12]) (use j1 in \<open>simp_all add: B1_def\<close>)
    have fin: "build ex bs cs (Loop test_first c step b) B = (close_block (Fallthrough cont) B2, Suc (Suc h), [])"
      unfolding B2_def B1_def h_def cont_def latch_def by (simp add: build.simps Let_def)
    have "grown B (close_block (Fallthrough cont) B2, Suc (Suc h), [])"
      by (rule grown_close [OF grown_trans [OF g1 g12 o] o]) (use j2 c2 in \<open>simp_all add: h_def\<close>)
    then show "grown B (build ex bs cs (Loop test_first c step b) B)"
      unfolding fin .
  qed
next
  case (6 ex bs cs v cases dflt B)
  show ?case
  proof
    assume o: "open_at B"
    obtain cl cur pend where B: "B = (cl, cur, pend)" by (cases B)
    have oc: "cur < length cl" "cl ! cur = None" using o by (simp_all add: B open_at_def)
    define k where "k = length cl"
    define n where "n = length cases"
    define j where "j = (case dflt of None \<Rightarrow> k + n | Some ss \<Rightarrow> Suc (k + n))"
    define cl1 where "cl1 = close_block (SwitchDispatch v (zip (map fst cases) [k..<k + n]) (k + n)) B @
       replicate (Suc (j - k)) None"
    define cl2 where "cl2 = build_cases ex (j # bs) cs k cases dflt cl1"
    have j: "j = k + arm_count cases dflt"
      by (simp add: j_def arm_count_def n_def split: option.splits)
    have l1: "length cl1 = Suc j"
      by (simp add: cl1_def B close_block_def k_def j)
    have none: "\<forall>i. k \<le> i \<and> i \<le> j \<longrightarrow> cl1 ! i = None"
      by (auto simp: cl1_def B close_block_def k_def nth_append simp flip: replicate_Suc)
    have old: "\<forall>i<k. i \<noteq> cur \<longrightarrow> cl1 ! i = cl ! i"
      by (auto simp: cl1_def B close_block_def k_def nth_append)
    have cur: "cl1 ! cur = Some \<lparr>statements = pend,
        terminator = SwitchDispatch v (zip (map fst cases) [k..<k + n]) (k + n)\<rparr>"
      using oc by (auto simp: cl1_def B close_block_def k_def nth_append)
    have "k + arm_count cases dflt \<le> length cl1 \<and>
        (\<forall>i. k \<le> i \<and> i < k + arm_count cases dflt \<longrightarrow> cl1 ! i = None) \<longrightarrow>
        arms_grown k (arm_count cases dflt) cl1 cl2"
      unfolding cl2_def cl1_def j_def n_def k_def B fst_conv
      using "6.IH" [OF refl refl refl refl refl] unfolding B fst_conv .
    then have "arms_grown k (arm_count cases dflt) cl1 cl2"
      using l1 none j by simp
    then have ag: "length cl1 \<le> length cl2"
      "\<forall>i<length cl1. i < k \<or> j \<le> i \<longrightarrow> cl2 ! i = cl1 ! i"
      by (simp_all add: arms_grown_def j)
    have fin: "build ex bs cs (Switch v cases dflt) B = (cl2, j, [])"
      unfolding cl2_def cl1_def j_def n_def k_def B by (simp add: build.simps Let_def)
    have "grown B (cl2, j, [])"
      using ag l1 none old cur oc j
      by (auto simp: grown_def B k_def)
    then show "grown B (build ex bs cs (Switch v cases dflt) B)"
      unfolding fin .
  qed
next
  case (7 ex bs cs B)
  show ?case
  proof
    assume o: "open_at B"
    have "grown B (close_block (Fallthrough (innermost ex bs)) B @ [None], length (fst B), [])"
      by (rule grown_start [OF o]) simp_all
    then show "grown B (build ex bs cs Break B)" by (simp add: build.simps)
  qed
next
  case (8 ex bs cs B)
  show ?case
  proof
    assume o: "open_at B"
    have "grown B (close_block (Fallthrough (innermost ex cs)) B @ [None], length (fst B), [])"
      by (rule grown_start [OF o]) simp_all
    then show "grown B (build ex bs cs Continue B)" by (simp add: build.simps)
  qed
next
  case (9 ex bs cs r B)
  show ?case
  proof
    assume o: "open_at B"
    have "grown B (close_block (Return_edge r) B @ [None], length (fst B), [])"
      by (rule grown_start [OF o]) simp_all
    then show "grown B (build ex bs cs (Return r) B)" by (simp add: build.simps)
  qed
next
  case (10 ex bs cs B)
  show ?case by (simp add: build_list.simps grown_refl)
next
  case (11 ex bs cs t ts B)
  show ?case
  proof
    assume o: "open_at B"
    have g1: "grown B (build ex bs cs t B)" using "11.IH"(1) o by simp
    have g2: "grown (build ex bs cs t B) (build_list ex bs cs ts (build ex bs cs t B))"
      using "11.IH"(2) grown_open [OF g1] by simp
    show "grown B (build_list ex bs cs (t # ts) B)"
      using grown_trans [OF g1 g2 o] by (simp add: build_list.simps)
  qed
next
  case (12 ex bs cs i cl)
  show ?case by (simp add: build_cases.simps arms_grown_def)
next
  case (13 ex bs cs i ss cl)
  show ?case
  proof
    assume a: "i + arm_count [] (Some ss) \<le> length cl \<and>
      (\<forall>j. i \<le> j \<and> j < i + arm_count [] (Some ss) \<longrightarrow> cl ! j = None)"
    then have i: "i < length cl" "cl ! i = None" by (simp_all add: arm_count_def)
    then have g: "grown (cl, i, []) (build_list ex bs cs ss (cl, i, []))"
      using "13.IH" by (simp add: open_at_def)
    show "arms_grown i (arm_count [] (Some ss)) cl (build_cases ex bs cs i [] (Some ss) cl)"
      using grown_arm [OF g i(1)] grown_arm_length [OF g]
      by (auto simp: build_cases.simps arms_grown_def arm_count_def)
  qed
next
  case (14 ex bs cs i l ss rest dflt cl)
  show ?case
  proof
    assume a: "i + arm_count ((l, ss) # rest) dflt \<le> length cl \<and>
      (\<forall>j. i \<le> j \<and> j < i + arm_count ((l, ss) # rest) dflt \<longrightarrow> cl ! j = None)"
    have ac: "arm_count ((l, ss) # rest) dflt = Suc (arm_count rest dflt)"
      by (simp add: arm_count_def)
    have i: "i < length cl" "cl ! i = None" using a by (simp_all add: ac)
    define Ba where "Ba = build_list ex bs cs ss (cl, i, [])"
    define cla where "cla = close_block (Fallthrough (Suc i)) Ba"
    have g: "grown (cl, i, []) Ba"
      using "14.IH"(1) i by (simp add: open_at_def Ba_def)
    have keep: "\<And>j. j < length cl \<Longrightarrow> j \<noteq> i \<Longrightarrow> cla ! j = cl ! j"
      using grown_arm [OF g i(1)] by (simp add: cla_def)
    have len: "length cl \<le> length cla"
      using grown_arm_length [OF g] by (simp add: cla_def)
    have "arms_grown (Suc i) (arm_count rest dflt) cla (build_cases ex bs cs (Suc i) rest dflt cla)"
      using "14.IH"(2) a keep len by (simp add: ac Ba_def cla_def)
    then have "arms_grown i (arm_count ((l, ss) # rest) dflt) cl
        (build_cases ex bs cs (Suc i) rest dflt cla)"
      using keep len by (auto simp: arms_grown_def ac)
    then show "arms_grown i (arm_count ((l, ss) # rest) dflt) cl
        (build_cases ex bs cs i ((l, ss) # rest) dflt cl)"
      by (simp add: build_cases.simps Ba_def cla_def)
  qed
qed

subsection \<open>The CFG of a statement simulates the statement\<close>

lemma extends_append: "extends (cl @ extra) G \<Longrightarrow> extends cl G"
  by (auto simp: extends_def nth_append)

lemma extends_nth:
  "extends cl G \<Longrightarrow> i < length cl \<Longrightarrow> cl ! i = Some b \<Longrightarrow> i < length (blocks G) \<and> blocks G ! i = b"
  by (simp add: extends_def)

lemma ext_extends: "ext B G \<Longrightarrow> extends (fst B) G"
  by (auto simp: ext_def split: prod.splits)

lemma ext_grown:
  assumes "open_at B" and "grown B B'" and "ext B' G"
  shows "ext B G"
proof -
  obtain cl cur pend where B: "B = (cl, cur, pend)" by (cases B)
  obtain cl' cur' pend' where B': "B' = (cl', cur', pend')" by (cases B')
  have o: "cur < length cl" "cl ! cur = None" using assms(1) by (simp_all add: B open_at_def)
  have g: "length cl \<le> length cl'" "\<forall>i<length cl. i \<noteq> cur \<longrightarrow> cl' ! i = cl ! i"
    "cur' = cur \<and> (\<exists>X. pend' = pend @ X) \<or>
       length cl \<le> cur' \<and> (\<exists>X T. cl' ! cur = Some \<lparr>statements = pend @ X, terminator = T\<rparr>)"
    using assms(2) by (simp_all add: B B' grown_def)
  have e: "extends cl' G" "cur' < length (blocks G)"
    "\<exists>X T. blocks G ! cur' = \<lparr>statements = pend' @ X, terminator = T\<rparr>"
    using assms(3) by (simp_all add: B' ext_def)
  have 1: "extends cl G"
    unfolding extends_def
  proof (intro allI impI)
    fix i b assume i: "i < length cl" "cl ! i = Some b"
    then have "i \<noteq> cur" using o by auto
    then have "cl' ! i = Some b" using g(2) i by simp
    then show "i < length (blocks G) \<and> blocks G ! i = b"
      using extends_nth [OF e(1)] i(1) g(1) by simp
  qed
  have 2: "cur < length (blocks G) \<and> (\<exists>X T. blocks G ! cur = \<lparr>statements = pend @ X, terminator = T\<rparr>)"
    using g(3)
  proof
    assume a: "cur' = cur \<and> (\<exists>X. pend' = pend @ X)"
    then obtain X where "pend' = pend @ X" by auto
    then show ?thesis using e(2,3) a by auto
  next
    assume a: "length cl \<le> cur' \<and>
      (\<exists>X T. cl' ! cur = Some \<lparr>statements = pend @ X, terminator = T\<rparr>)"
    then obtain X T where "cl' ! cur = Some \<lparr>statements = pend @ X, terminator = T\<rparr>" by auto
    then show ?thesis using extends_nth [OF e(1), of cur] o(1) g(1) by auto
  qed
  show ?thesis using 1 2 by (simp add: B ext_def)
qed

lemma ext_close:
  assumes "open_at B" and "extends (close_block T B) G"
  shows "ext B G" and "fst (snd B) < length (blocks G)"
    and "blocks G ! fst (snd B) = \<lparr>statements = snd (snd B), terminator = T\<rparr>"
proof -
  obtain cl cur pend where B: "B = (cl, cur, pend)" by (cases B)
  have o: "cur < length cl" "cl ! cur = None" using assms(1) by (simp_all add: B open_at_def)
  let ?b = "\<lparr>statements = pend, terminator = T\<rparr>"
  have e: "extends (cl[cur := Some ?b]) G" using assms(2) by (simp add: B close_block_def)
  have c: "cur < length (blocks G) \<and> blocks G ! cur = ?b"
    using extends_nth [OF e, of cur ?b] o(1) by simp
  have "extends cl G"
    unfolding extends_def
  proof (intro allI impI)
    fix i b assume i: "i < length cl" "cl ! i = Some b"
    then have "i \<noteq> cur" using o by auto
    then show "i < length (blocks G) \<and> blocks G ! i = b"
      using extends_nth [OF e, of i b] i by simp
  qed
  then show "ext B G" using c by (auto simp: B ext_def)
  show "fst (snd B) < length (blocks G)" using c by (simp add: B)
  show "blocks G ! fst (snd B) = \<lparr>statements = snd (snd B), terminator = T\<rparr>"
    using c by (simp add: B)
qed

lemma extends_arms:
  assumes "arms_grown i k cl cl'" and "\<forall>j. i \<le> j \<and> j < i + k \<longrightarrow> cl ! j = None"
    and "extends cl' G"
  shows "extends cl G"
  unfolding extends_def
proof (intro allI impI)
  fix j b assume j: "j < length cl" "cl ! j = Some b"
  then have "j < i \<or> i + k \<le> j" using assms(2) by (metis not_le_imp_less option.distinct(1))
  then have "cl' ! j = Some b" using assms(1) j by (auto simp add: arms_grown_def)
  then show "j < length (blocks G) \<and> blocks G ! j = b"
    using extends_nth [OF assms(3), of j b] assms(1) j(1) by (simp add: arms_grown_def)
qed

lemma reach_refl: "reach callee G pc s ev 0 pc s ev"
  by (simp add: reach_def)

lemma reach_trans:
  "reach callee G pc s ev j pc1 s1 ev1 \<Longrightarrow> reach callee G pc1 s1 ev1 k pc2 s2 ev2 \<Longrightarrow>
   reach callee G pc s ev (k + j) pc2 s2 ev2"
  by (simp add: reach_def flip: add.assoc)

lemma reach_lands:
  "reach callee G pc s ev j pc1 s1 ev1 \<Longrightarrow> lands callee G pc1 s1 ev1 k r \<Longrightarrow>
   lands callee G pc s ev (k + j) r"
  by (simp add: reach_def lands_def flip: add.assoc)

lemma reach_stuck:
  assumes "reach callee G pc s ev j pc1 s1 ev1" and "stuck callee G pc1 s1 ev1 n"
  shows "stuck callee G pc s ev (n + j)"
proof -
  obtain k s' ev' where k: "n \<le> k" "run_cfg k callee G pc1 s1 ev1 = Some (Fuel_out, s', ev')"
    using assms(2) by (auto simp: stuck_def)
  have "run_cfg (k + j) callee G pc s ev = Some (Fuel_out, s', ev')"
    using assms(1) k(2) by (simp add: reach_def)
  then show ?thesis using k(1) unfolding stuck_def
    by (intro exI [of _ "k + j"]) auto
qed

lemma stuck_less: "stuck callee G pc s ev n \<Longrightarrow> k \<le> n \<Longrightarrow> stuck callee G pc s ev k"
  by (auto simp: stuck_def intro: le_trans)

lemma run_statements_append:
  "run_statements callee (as @ bs) x ev =
     (case run_statements callee as x ev of
        Finished (x', ev') \<Rightarrow> run_statements callee bs x' ev'
      | Interrupted r \<Rightarrow> Interrupted r)"
  by (induction as arbitrary: x ev) (auto split: option.splits)

lemma stuck_0:
  "pc \<noteq> exit G \<Longrightarrow> pc < length (blocks G) \<Longrightarrow> stuck callee G pc s ev 0"
  unfolding stuck_def by (intro exI [of _ 0]) (simp add: run_cfg.simps)

lemma block_goto:
  assumes "pc \<noteq> exit G" and "pc < length (blocks G)"
    and "blocks G ! pc = \<lparr>statements = as, terminator = T\<rparr>"
    and "run_statements callee as s0 ev0 = Finished (s, ev)"
    and "follow callee T s ev = Finished (Goto p, s', ev')"
  shows "reach callee G pc s0 ev0 1 p s' ev'"
  unfolding reach_def using assms by (simp add: run_cfg.simps [of "Suc _"] run_block_def)

lemma block_leave:
  assumes "pc \<noteq> exit G" and "pc < length (blocks G)"
    and "blocks G ! pc = \<lparr>statements = as, terminator = T\<rparr>"
    and "run_statements callee as s0 ev0 = Finished (s, ev)"
    and "follow callee T s ev = Finished (Leave r, s', ev')"
  shows "lands callee G pc s0 ev0 1 (Returned r, s', ev')"
  unfolding lands_def using assms by (simp add: run_cfg.simps [of "Suc _"] run_block_def)

lemma block_interrupted:
  assumes "pc \<noteq> exit G" and "pc < length (blocks G)"
    and "blocks G ! pc = \<lparr>statements = as, terminator = T\<rparr>"
    and "run_statements callee as s0 ev0 = Finished (s, ev)"
    and "follow callee T s ev = Interrupted r"
  shows "stuck callee G pc s0 ev0 n"
  unfolding stuck_def using assms
  by (intro exI [of _ "Suc n"]) (auto simp add: run_cfg.simps [of "Suc _"] run_block_def split: prod.splits)

lemma statements_interrupted:
  assumes "pc \<noteq> exit G" and "pc < length (blocks G)"
    and "run_statements callee (statements (blocks G ! pc)) s0 ev0 = Interrupted r"
  shows "stuck callee G pc s0 ev0 n"
  unfolding stuck_def using assms
  by (intro exI [of _ "Suc n"]) (auto simp add: run_cfg.simps [of "Suc _"] run_block_def split: prod.splits)

lemma simulates_via:
  assumes "reach callee G pc s0 ev0 j pc1 s1 ev1"
    and "simulates n callee G pc1 s1 ev1 res pcN pendN pcB pcC"
  shows "simulates (n + j) callee G pc s0 ev0 res pcN pendN pcB pcC"
proof -
  obtain fl s' ev' where res: "res = (fl, s', ev')" by (cases res)
  show ?thesis
  proof (cases fl)
    case Normal
    then obtain k s2 ev2 where "reach callee G pc1 s1 ev1 k pcN s2 ev2"
      "run_statements callee pendN s2 ev2 = Finished (s', ev')"
      using assms(2) by (auto simp: simulates_def res)
    then show ?thesis using reach_trans [OF assms(1)] Normal
      by (fastforce simp: simulates_def res)
  next
    case Broke
    then show ?thesis using assms(2) reach_trans [OF assms(1)]
      by (fastforce simp: simulates_def res)
  next
    case Continued
    then show ?thesis using assms(2) reach_trans [OF assms(1)]
      by (fastforce simp: simulates_def res)
  next
    case (Returned r)
    then show ?thesis using assms(2) reach_lands [OF assms(1)]
      by (fastforce simp: simulates_def res)
  next
    case Fuel_out
    then show ?thesis using assms(2) reach_stuck [OF assms(1)]
      by (auto simp: simulates_def res)
  qed
qed

lemma simulates_less:
  assumes "simulates n callee G pc s0 ev0 res pcN pendN pcB pcC" and "k \<le> n"
  shows "simulates k callee G pc s0 ev0 res pcN pendN pcB pcC"
  using assms by (auto simp: simulates_def intro: stuck_less split: prod.splits flow.splits)

lemma simulates_via0:
  assumes "reach callee G pc s0 ev0 j pc1 s1 ev1"
    and "simulates n callee G pc1 s1 ev1 res pcN pendN pcB pcC"
  shows "simulates n callee G pc s0 ev0 res pcN pendN pcB pcC"
  by (rule simulates_less [OF simulates_via [OF assms]]) simp

lemma first_match_absent: "v \<notin> set ls \<Longrightarrow> first_match v ls = length ls"
  by (induction ls) auto

lemma map_of_first_match:
  "map_of (zip ls [k..<k + length ls]) v =
     (if v \<in> set ls then Some (k + first_match v ls) else None)"
proof (induction ls arbitrary: k)
  case Nil
  show ?case by simp
next
  case (Cons l ls)
  have e: "[k..<k + length (l # ls)] = k # [Suc k..<Suc k + length ls]"
    using upt_conv_Cons [of k "Suc (k + length ls)"] by (simp del: upt_Suc)
  show ?case unfolding e using Cons.IH [of "Suc k"] by (simp del: upt_Suc)
qed

lemma map_of_table:
  "(case map_of (zip ls [k..<k + length ls]) v of Some t \<Rightarrow> t | None \<Rightarrow> k + length ls) =
     k + first_match v ls"
  by (simp add: map_of_first_match first_match_absent del: upt_Suc)

lemma simulates_seq:
  assumes "simulates n callee G pc s0 ev0 res1 pcN pendN pcB pcC"
    and "\<And>s1 ev1 s' ev'. run_statements callee pendN s1 ev1 = Finished (s', ev') \<Longrightarrow>
           simulates n callee G pcN s1 ev1 (f s' ev') pcN2 pend2 pcB pcC"
  shows "simulates n callee G pc s0 ev0
     (case res1 of (fl, x', ev') \<Rightarrow> if fl = Normal then f x' ev' else (fl, x', ev'))
     pcN2 pend2 pcB pcC"
proof -
  obtain fl s' ev' where res: "res1 = (fl, s', ev')" by (cases res1)
  show ?thesis
  proof (cases "fl = Normal")
    case True
    then obtain j s1 ev1 where r: "reach callee G pc s0 ev0 j pcN s1 ev1"
      and p: "run_statements callee pendN s1 ev1 = Finished (s', ev')"
      using assms(1) by (auto simp: simulates_def res)
    show ?thesis using simulates_via0 [OF r assms(2) [OF p]] True by (simp add: res)
  next
    case False
    then show ?thesis using assms(1) by (cases fl) (auto simp: simulates_def res)
  qed
qed

lemma simulates_close:
  assumes "simulates n callee G pc s0 ev0 res c2 p2 pcB pcC"
    and "c2 \<noteq> exit G" and "c2 < length (blocks G)"
    and "blocks G ! c2 = \<lparr>statements = p2, terminator = Fallthrough q\<rparr>"
  shows "simulates n callee G pc s0 ev0 res q [] pcB pcC"
proof -
  obtain fl s' ev' where res: "res = (fl, s', ev')" by (cases res)
  show ?thesis
  proof (cases "fl = Normal")
    case True
    then obtain j s1 ev1 where r: "reach callee G pc s0 ev0 j c2 s1 ev1"
      and p: "run_statements callee p2 s1 ev1 = Finished (s', ev')"
      using assms(1) by (auto simp: simulates_def res)
    have "reach callee G c2 s1 ev1 1 q s' ev'"
      by (rule block_goto [OF assms(2,3,4) p]) simp
    from reach_trans [OF r this] show ?thesis using True
      by (auto simp: simulates_def res)
  next
    case False
    then show ?thesis using assms(1) by (cases fl) (auto simp: simulates_def res)
  qed
qed

lemma simulates_retarget:
  assumes "simulates n callee G pc s0 ev0 res pcN pendN pcB pcC" and "fst res \<noteq> Normal"
  shows "simulates n callee G pc s0 ev0 res pcN' pendN' pcB pcC"
  using assms by (cases res; cases "fst res") (auto simp: simulates_def)

lemma sim_Expr:
  assumes "run_statements callee pend s0 ev0 = Finished (s, ev)"
    and "cur \<noteq> exit G" and "cur < length (blocks G)"
    and "\<exists>X T. blocks G ! cur = \<lparr>statements = (pend @ [a]) @ X, terminator = T\<rparr>"
  shows "simulates n callee G cur s0 ev0 (exec n callee (ExprStatement a) s ev)
     cur (pend @ [a]) pcB pcC"
proof (cases "perform callee a s")
  case None
  obtain X T where b: "blocks G ! cur = \<lparr>statements = (pend @ [a]) @ X, terminator = T\<rparr>"
    using assms(4) by auto
  have "run_statements callee (statements (blocks G ! cur)) s0 ev0 = Interrupted (s, ev)"
    by (simp add: b run_statements_append assms(1) None)
  from statements_interrupted [OF assms(2,3) this] show ?thesis
    by (simp add: None simulates_def)
next
  case (Some r)
  obtain v s' out where r: "r = (v, s', out)" by (cases r)
  have "run_statements callee (pend @ [a]) s0 ev0 = Finished (s', ev @ out)"
    by (simp add: run_statements_append assms(1) Some r)
  then show ?thesis using reach_refl [of callee G cur s0 ev0]
    by (auto simp: Some r simulates_def)
qed

lemma sim_Break:
  assumes "run_statements callee pend s0 ev0 = Finished (s, ev)"
    and "cur \<noteq> exit G" and "cur < length (blocks G)"
    and "blocks G ! cur = \<lparr>statements = pend, terminator = Fallthrough q\<rparr>"
  shows "simulates n callee G cur s0 ev0 (exec n callee Break s ev) pcN pendN q pcC"
proof -
  have "reach callee G cur s0 ev0 1 q s ev"
    by (rule block_goto [OF assms(2,3,4,1)]) simp
  then show ?thesis by (auto simp: simulates_def)
qed

lemma sim_Continue:
  assumes "run_statements callee pend s0 ev0 = Finished (s, ev)"
    and "cur \<noteq> exit G" and "cur < length (blocks G)"
    and "blocks G ! cur = \<lparr>statements = pend, terminator = Fallthrough q\<rparr>"
  shows "simulates n callee G cur s0 ev0 (exec n callee Continue s ev) pcN pendN pcB q"
proof -
  have "reach callee G cur s0 ev0 1 q s ev"
    by (rule block_goto [OF assms(2,3,4,1)]) simp
  then show ?thesis by (auto simp: simulates_def)
qed

lemma sim_Return:
  assumes "run_statements callee pend s0 ev0 = Finished (s, ev)"
    and "cur \<noteq> exit G" and "cur < length (blocks G)"
    and "blocks G ! cur = \<lparr>statements = pend, terminator = Return_edge r\<rparr>"
  shows "simulates n callee G cur s0 ev0 (exec n callee (Return r) s ev) pcN pendN pcB pcC"
proof (cases r)
  case None
  have "lands callee G cur s0 ev0 1 (Returned None, s, ev)"
    by (rule block_leave [OF assms(2,3,4,1)]) (simp add: None)
  then show ?thesis by (auto simp: simulates_def None)
next
  case (Some a)
  show ?thesis
  proof (cases "perform callee a s")
    case None
    have "stuck callee G cur s0 ev0 n"
      by (rule block_interrupted [OF assms(2,3,4,1)]) (simp add: Some None)
    then show ?thesis by (simp add: simulates_def Some None)
  next
    case (Some p)
    obtain v s' out where p: "p = (v, s', out)" by (cases p)
    have "lands callee G cur s0 ev0 1 (Returned (Some v), s', ev @ out)"
      by (rule block_leave [OF assms(2,3,4,1)]) (simp add: \<open>r = Some a\<close> Some p)
    then show ?thesis by (auto simp: simulates_def \<open>r = Some a\<close> Some p)
  qed
qed

lemma sim_If:
  assumes "run_statements callee pend s0 ev0 = Finished (s, ev)"
    and "cur \<noteq> exit G" and "cur < length (blocks G)"
    and "blocks G ! cur = \<lparr>statements = pend, terminator = Branch c t_id e_id\<rparr>"
    and "\<And>s1 ev1. simulates n callee G t_id s1 ev1 (exec n callee t s1 ev1) j_id [] pcB pcC"
    and "\<And>s1 ev1. simulates n callee G e_id s1 ev1
           (case e of None \<Rightarrow> (Normal, s1, ev1) | Some e' \<Rightarrow> exec n callee e' s1 ev1) j_id [] pcB pcC"
  shows "simulates n callee G cur s0 ev0 (exec n callee (If c t e) s ev) j_id [] pcB pcC"
proof (cases "perform callee c s")
  case None
  have "stuck callee G cur s0 ev0 n"
    by (rule block_interrupted [OF assms(2,3,4,1)]) (simp add: None)
  then show ?thesis by (simp add: simulates_def None)
next
  case (Some p)
  obtain v s' out where p: "p = (v, s', out)" by (cases p)
  have r: "reach callee G cur s0 ev0 1 (if v \<noteq> 0 then t_id else e_id) s' (ev @ out)"
    by (rule block_goto [OF assms(2,3,4,1)]) (simp add: Some p)
  show ?thesis
  proof (cases "v = 0")
    case True
    then have r': "reach callee G cur s0 ev0 1 e_id s' (ev @ out)" using r by simp
    show ?thesis using simulates_via0 [OF r' assms(6)]
      by (simp add: Some p True split: option.splits)
  next
    case False
    then have r': "reach callee G cur s0 ev0 1 t_id s' (ev @ out)" using r by simp
    show ?thesis using simulates_via0 [OF r' assms(5)] False
      by (simp add: Some p)
  qed
qed

lemma sim_Switch:
  assumes "run_statements callee pend s0 ev0 = Finished (s, ev)"
    and "cur \<noteq> exit G" and "cur < length (blocks G)"
    and "blocks G ! cur = \<lparr>statements = pend,
       terminator = SwitchDispatch a (zip (map fst cases) [k..<k + length cases]) (k + length cases)\<rparr>"
    and "\<And>v s1 ev1. simulates n callee G (k + first_match v (map fst cases)) s1 ev1
           (exec_cases n callee v False cases dflt s1 ev1) j_id [] j_id pcC"
  shows "simulates n callee G cur s0 ev0 (exec n callee (Switch a cases dflt) s ev) j_id [] pcB pcC"
proof (cases "perform callee a s")
  case None
  have "stuck callee G cur s0 ev0 n"
    by (rule block_interrupted [OF assms(2,3,4,1)]) (simp add: None)
  then show ?thesis by (simp add: simulates_def None)
next
  case (Some p)
  obtain v s' out where p: "p = (v, s', out)" by (cases p)
  have t: "(case map_of (zip (map fst cases) [k..<k + length cases]) v of
        Some t \<Rightarrow> t | None \<Rightarrow> k + length cases) = k + first_match v (map fst cases)"
    using map_of_table [where ls = "map fst cases" and k = k and v = v]
    by (simp only: length_map)
  have r: "reach callee G cur s0 ev0 1 (k + first_match v (map fst cases)) s' (ev @ out)"
    by (rule block_goto [OF assms(2,3,4,1)]) (simp add: Some p t)
  obtain fl x2 ev2 where e: "exec_cases n callee v False cases dflt s' (ev @ out) = (fl, x2, ev2)"
    by (cases "exec_cases n callee v False cases dflt s' (ev @ out)")
  have "simulates n callee G cur s0 ev0 (fl, x2, ev2) j_id [] j_id pcC"
    using simulates_via0 [OF r assms(5) [of v s' "ev @ out"]] by (simp add: e)
  then have "simulates n callee G cur s0 ev0 (if fl = Broke then Normal else fl, x2, ev2)
      j_id [] pcB pcC"
    by (cases fl) (auto simp: simulates_def)
  then show ?thesis by (simp add: Some p e)
qed

lemma exec_Loop_Suc:
  "exec (Suc m) callee (Loop test_first c step b) x ev =
     (case (if test_first then perform callee c x else Some (1, x, [])) of
        None \<Rightarrow> (Fuel_out, x, ev)
      | Some (v, x1, out) \<Rightarrow>
          if v = 0 then (Normal, x1, ev @ out)
          else
            (case exec (Suc m) callee b x1 (ev @ out) of
               (fl, x2, ev2) \<Rightarrow>
                 if fl = Normal \<or> fl = Continued then
                   (case step of
                      None \<Rightarrow> exec m callee (Loop True c step b) x2 ev2
                    | Some a \<Rightarrow>
                        (case perform callee a x2 of
                           None \<Rightarrow> (Fuel_out, x2, ev2)
                         | Some (w, x3, out3) \<Rightarrow>
                             exec m callee (Loop True c step b) x3 (ev2 @ out3)))
                 else if fl = Broke then (Normal, x2, ev2)
                 else (fl, x2, ev2)))"
  by (subst exec.simps(4)) (auto split: option.splits prod.splits)

lemma exec_Loop_0:
  "exec 0 callee (Loop test_first c step b) x ev =
     (case (if test_first then perform callee c x else Some (1, x, [])) of
        None \<Rightarrow> (Fuel_out, x, ev)
      | Some (v, x1, out) \<Rightarrow>
          if v = 0 then (Normal, x1, ev @ out) else (Fuel_out, x1, ev @ out))"
  by (subst exec.simps(4)) (auto split: option.splits prod.splits)

lemma sim_after_body:
  assumes H: "\<And>x ev. simulates m callee G h x ev (exec m callee (Loop True c step b) x ev)
      j_id [] pcB pcC"
    and body: "\<And>s1 ev1. simulates (Suc m) callee G b_id s1 ev1 (exec (Suc m) callee b s1 ev1)
      cont [] j_id cont"
    and cont_h: "step = None \<Longrightarrow> cont = h"
    and latch: "\<And>a. step = Some a \<Longrightarrow> cont \<noteq> exit G \<and> cont < length (blocks G) \<and>
      blocks G ! cont = \<lparr>statements = [a], terminator = Fallthrough h\<rparr>"
  shows "simulates m callee G b_id x1 ev1
     (case exec (Suc m) callee b x1 ev1 of
        (fl, x2, ev2) \<Rightarrow>
          if fl = Normal \<or> fl = Continued then
            (case step of
               None \<Rightarrow> exec m callee (Loop True c step b) x2 ev2
             | Some a \<Rightarrow>
                 (case perform callee a x2 of
                    None \<Rightarrow> (Fuel_out, x2, ev2)
                  | Some (w, x3, out3) \<Rightarrow> exec m callee (Loop True c step b) x3 (ev2 @ out3)))
          else if fl = Broke then (Normal, x2, ev2)
          else (fl, x2, ev2))
     j_id [] pcB pcC"
proof -
  obtain fl x2 ev2 where e: "exec (Suc m) callee b x1 ev1 = (fl, x2, ev2)"
    by (cases "exec (Suc m) callee b x1 ev1")
  have bs: "simulates (Suc m) callee G b_id x1 ev1 (fl, x2, ev2) cont [] j_id cont"
    using body [of x1 ev1] by (simp add: e)
  have at_cont: "simulates m callee G cont x2 ev2
     (case step of
        None \<Rightarrow> exec m callee (Loop True c step b) x2 ev2
      | Some a \<Rightarrow>
          (case perform callee a x2 of
             None \<Rightarrow> (Fuel_out, x2, ev2)
           | Some (w, x3, out3) \<Rightarrow> exec m callee (Loop True c step b) x3 (ev2 @ out3)))
     j_id [] pcB pcC"
  proof (cases step)
    case None
    then show ?thesis using H [of x2 ev2] cont_h by simp
  next
    case (Some a)
    note l = latch [OF Some]
    show ?thesis
    proof (cases "perform callee a x2")
      case None
      have "run_statements callee (statements (blocks G ! cont)) x2 ev2 = Interrupted (x2, ev2)"
        using l by (simp add: None)
      from statements_interrupted [OF _ _ this, of m] l show ?thesis
        by (simp add: Some None simulates_def)
    next
      case (Some p)
      obtain w x3 out3 where p: "p = (w, x3, out3)" by (cases p)
      have "reach callee G cont x2 ev2 1 h x3 (ev2 @ out3)"
        by (rule block_goto [where as = "[a]" and T = "Fallthrough h"])
           (use l in \<open>simp_all add: Some p\<close>)
      from simulates_via0 [OF this H] show ?thesis
        by (simp add: \<open>step = Some a\<close> Some p)
    qed
  qed
  show ?thesis
  proof (cases fl)
    case Normal
    then obtain j s1 ev1' where r: "reach callee G b_id x1 ev1 j cont s1 ev1'"
      and "run_statements callee [] s1 ev1' = Finished (x2, ev2)"
      using bs by (auto simp: simulates_def)
    then have r: "reach callee G b_id x1 ev1 j cont x2 ev2" by simp
    show ?thesis using simulates_via0 [OF r at_cont] by (simp add: e Normal)
  next
    case Continued
    then obtain j where r: "reach callee G b_id x1 ev1 j cont x2 ev2"
      using bs by (auto simp: simulates_def)
    show ?thesis using simulates_via0 [OF r at_cont] by (simp add: e Continued)
  next
    case Broke
    then show ?thesis using bs by (auto simp: simulates_def e)
  next
    case (Returned r)
    then show ?thesis using bs by (auto simp: simulates_def e)
  next
    case Fuel_out
    then have "stuck callee G b_id x1 ev1 (Suc m)" using bs by (simp add: simulates_def)
    then have "stuck callee G b_id x1 ev1 m" by (rule stuck_less) simp
    then show ?thesis by (simp add: simulates_def e Fuel_out)
  qed
qed

lemma sim_Loop_header:
  assumes hdr: "h \<noteq> exit G" "h < length (blocks G)"
      "blocks G ! h = \<lparr>statements = [], terminator = Branch c b_id j_id\<rparr>"
    and body: "\<And>n s1 ev1. simulates n callee G b_id s1 ev1 (exec n callee b s1 ev1)
      cont [] j_id cont"
    and cont_h: "step = None \<Longrightarrow> cont = h"
    and latch: "\<And>a. step = Some a \<Longrightarrow> cont \<noteq> exit G \<and> cont < length (blocks G) \<and>
      blocks G ! cont = \<lparr>statements = [a], terminator = Fallthrough h\<rparr>"
  shows "simulates n callee G h x ev (exec n callee (Loop True c step b) x ev) j_id [] pcB pcC"
proof (induction n arbitrary: x ev)
  case (0 x ev)
  show ?case
  proof (cases "perform callee c x")
    case None
    then show ?thesis using stuck_0 [OF hdr(1,2)] by (simp add: exec.simps(4) simulates_def)
  next
    case (Some p)
    obtain v x1 out where p: "p = (v, x1, out)" by (cases p)
    show ?thesis
    proof (cases "v = 0")
      case True
      have f: "follow callee (Branch c b_id j_id) x ev = Finished (Goto j_id, x1, ev @ out)"
        by (simp add: Some p True)
      have "reach callee G h x ev 1 j_id x1 (ev @ out)"
        by (rule block_goto [OF hdr _ f]) simp
      then show ?thesis by (auto simp: exec.simps(4) Some p True simulates_def)
    next
      case False
      then show ?thesis using stuck_0 [OF hdr(1,2)]
        by (simp add: exec.simps(4) Some p simulates_def)
    qed
  qed
next
  case (Suc m x ev)
  show ?case
  proof (cases "perform callee c x")
    case None
    have f: "follow callee (Branch c b_id j_id) x ev = Interrupted (Goto b_id, x, ev)"
      by (simp add: None)
    have "stuck callee G h x ev (Suc m)"
      by (rule block_interrupted [OF hdr _ f]) simp
    then show ?thesis by (simp add: exec.simps(4) None simulates_def)
  next
    case (Some p)
    obtain v x1 out where p: "p = (v, x1, out)" by (cases p)
    show ?thesis
    proof (cases "v = 0")
      case True
      have f: "follow callee (Branch c b_id j_id) x ev = Finished (Goto j_id, x1, ev @ out)"
        by (simp add: Some p True)
      have "reach callee G h x ev 1 j_id x1 (ev @ out)"
        by (rule block_goto [OF hdr _ f]) simp
      then show ?thesis by (auto simp: exec.simps(4) Some p True simulates_def)
    next
      case False
      have f: "follow callee (Branch c b_id j_id) x ev = Finished (Goto b_id, x1, ev @ out)"
        by (simp add: Some p False)
      have r: "reach callee G h x ev 1 b_id x1 (ev @ out)"
        by (rule block_goto [OF hdr _ f]) simp
      have "simulates (m + 1) callee G h x ev
         (case exec (Suc m) callee b x1 (ev @ out) of
            (fl, x2, ev2) \<Rightarrow>
              if fl = Normal \<or> fl = Continued then
                (case step of
                   None \<Rightarrow> exec m callee (Loop True c step b) x2 ev2
                 | Some a \<Rightarrow>
                     (case perform callee a x2 of
                        None \<Rightarrow> (Fuel_out, x2, ev2)
                      | Some (w, x3, out3) \<Rightarrow> exec m callee (Loop True c step b) x3 (ev2 @ out3)))
              else if fl = Broke then (Normal, x2, ev2)
              else (fl, x2, ev2))
         j_id [] pcB pcC"
        by (rule simulates_via [OF r sim_after_body [OF Suc.IH body cont_h latch]])
      then show ?thesis using False by (simp add: exec_Loop_Suc Some p)
    qed
  qed
qed

lemma sim_Loop:
  assumes pos: "run_statements callee pend s0 ev0 = Finished (s, ev)"
    and blk: "cur \<noteq> exit G" "cur < length (blocks G)"
      "blocks G ! cur = \<lparr>statements = pend, terminator = Fallthrough (if test_first then h else b_id)\<rparr>"
    and hdr: "h \<noteq> exit G" "h < length (blocks G)"
      "blocks G ! h = \<lparr>statements = [], terminator = Branch c b_id j_id\<rparr>"
    and body: "\<And>n s1 ev1. simulates n callee G b_id s1 ev1 (exec n callee b s1 ev1)
      cont [] j_id cont"
    and cont_h: "step = None \<Longrightarrow> cont = h"
    and latch: "\<And>a. step = Some a \<Longrightarrow> cont \<noteq> exit G \<and> cont < length (blocks G) \<and>
      blocks G ! cont = \<lparr>statements = [a], terminator = Fallthrough h\<rparr>"
  shows "simulates n callee G cur s0 ev0 (exec n callee (Loop test_first c step b) s ev)
     j_id [] pcB pcC"
proof (cases test_first)
  case True
  have r: "reach callee G cur s0 ev0 1 h s ev"
    by (rule block_goto [OF blk pos]) (simp add: True)
  have "simulates n callee G cur s0 ev0 (exec n callee (Loop True c step b) s ev) j_id [] pcB pcC"
    by (rule simulates_via0 [OF r sim_Loop_header [OF hdr body cont_h latch]])
  then show ?thesis using True by simp
next
  case False
  have r: "reach callee G cur s0 ev0 1 b_id s ev"
    by (rule block_goto [OF blk pos]) (simp add: False)
  show ?thesis
  proof (cases n)
    case 0
    then show ?thesis using stuck_0 [OF blk(1,2)] False
      by (simp add: exec.simps(4) simulates_def)
  next
    case (Suc m)
    have H: "\<And>x ev. simulates m callee G h x ev (exec m callee (Loop True c step b) x ev)
        j_id [] pcB pcC"
      by (rule sim_Loop_header [OF hdr body cont_h latch])
    have "simulates (m + 1) callee G cur s0 ev0
       (case exec (Suc m) callee b s ev of
          (fl, x2, ev2) \<Rightarrow>
            if fl = Normal \<or> fl = Continued then
              (case step of
                 None \<Rightarrow> exec m callee (Loop True c step b) x2 ev2
               | Some a \<Rightarrow>
                   (case perform callee a x2 of
                      None \<Rightarrow> (Fuel_out, x2, ev2)
                    | Some (w, x3, out3) \<Rightarrow> exec m callee (Loop True c step b) x3 (ev2 @ out3)))
            else if fl = Broke then (Normal, x2, ev2)
            else (fl, x2, ev2))
       j_id [] pcB pcC"
      by (rule simulates_via [OF r sim_after_body [OF H body cont_h latch]])
    then show ?thesis using False by (simp add: exec_Loop_Suc Suc)
  qed
qed

lemma start_open:
  assumes "open_at B" and "length (fst B) \<le> c" and "c < length (fst B) + length extra"
    and "extra ! (c - length (fst B)) = None"
  shows "open_at (close_block T B @ extra, c, [])"
  by (rule grown_open [OF grown_start [OF assms]])

lemma start_block:
  assumes "open_at B" and "extends (close_block T B @ extra) G"
  shows "fst (snd B) < length (blocks G)"
    and "blocks G ! fst (snd B) = \<lparr>statements = snd (snd B), terminator = T\<rparr>"
  using ext_close(2,3) [OF assms(1) extends_append [OF assms(2)]] by simp_all

lemma close_ext:
  assumes "open_at B2" and "ext (close_block T B2, j, []) G"
  shows "ext B2 G" and "fst (snd B2) < length (blocks G)"
    and "blocks G ! fst (snd B2) = \<lparr>statements = snd (snd B2), terminator = T\<rparr>"
  using ext_close [OF assms(1), of T G] ext_extends [OF assms(2)] by simp_all

lemma build_simulates:
  fixes G :: "('x, 's, 'e) function_cfg" and B :: "('x, 's, 'e) builder"
    and t :: "('x, 's, 'e) stmt" and ts :: "('x, 's, 'e) stmt list"
    and cases :: "(int \<times> ('x, 's, 'e) stmt list) list" and dflt :: "('x, 's, 'e) stmt list option"
    and cl :: "('x, 's, 'e) basic_block option list"
  shows "\<forall>n s ev s0 ev0.
      open_at B \<and> ex < length (fst B) \<and> fst (snd B) \<noteq> ex \<and> ext (build ex bs cs t B) G \<and> exit G = ex \<and>
      run_statements callee (snd (snd B)) s0 ev0 = Finished (s, ev) \<longrightarrow>
      simulates n callee G (fst (snd B)) s0 ev0 (exec n callee t s ev)
        (fst (snd (build ex bs cs t B))) (snd (snd (build ex bs cs t B)))
        (innermost ex bs) (innermost ex cs)"
    and "\<forall>n s ev s0 ev0.
      open_at B \<and> ex < length (fst B) \<and> fst (snd B) \<noteq> ex \<and> ext (build_list ex bs cs ts B) G \<and> exit G = ex \<and>
      run_statements callee (snd (snd B)) s0 ev0 = Finished (s, ev) \<longrightarrow>
      simulates n callee G (fst (snd B)) s0 ev0 (exec_list n callee ts s ev)
        (fst (snd (build_list ex bs cs ts B))) (snd (snd (build_list ex bs cs ts B)))
        (innermost ex bs) (innermost ex cs)"
    and "\<forall>n v matched s ev.
      i + arm_count cases dflt \<le> length cl \<and>
      (\<forall>j. i \<le> j \<and> j < i + arm_count cases dflt \<longrightarrow> cl ! j = None) \<and> ex < i \<and>
      extends (build_cases ex bs cs i cases dflt cl) G \<and> exit G = ex \<longrightarrow>
      simulates n callee G (if matched then i else i + first_match v (map fst cases)) s ev
        (exec_cases n callee v matched cases dflt s ev)
        (i + arm_count cases dflt) [] (innermost ex bs) (innermost ex cs)"
proof (induction ex bs cs t B and ex bs cs ts B and ex bs cs i cases dflt cl
    rule: build_build_list_build_cases.induct)
  case (1 ex bs cs a B)
  show ?case
  proof (intro allI impI, elim conjE)
    fix n s ev s0 ev0
    assume o: "open_at B" and ex: "ex < length (fst B)" "fst (snd B) \<noteq> ex" "exit G = ex"
      and e: "ext (build ex bs cs (ExprStatement a) B) G"
      and pos: "run_statements callee (snd (snd B)) s0 ev0 = Finished (s, ev)"
    obtain cl cur pend where B: "B = (cl, cur, pend)" by (cases B)
    have b: "build ex bs cs (ExprStatement a) B = (cl, cur, pend @ [a])"
      by (simp add: build.simps B)
    have e': "ext (cl, cur, pend @ [a]) G" using e by (simp add: b)
    have "simulates n callee G cur s0 ev0 (exec n callee (ExprStatement a) s ev)
        cur (pend @ [a]) (innermost ex bs) (innermost ex cs)"
      by (rule sim_Expr) (use e' ex pos in \<open>auto simp: B ext_def\<close>)
    then show "simulates n callee G (fst (snd B)) s0 ev0 (exec n callee (ExprStatement a) s ev)
        (fst (snd (build ex bs cs (ExprStatement a) B)))
        (snd (snd (build ex bs cs (ExprStatement a) B))) (innermost ex bs) (innermost ex cs)"
      unfolding b by (simp add: B)
  qed
next
  case (2 ex bs cs ss B)
  then show ?case by (simp add: build.simps)
next
  case (3 ex bs cs c t B)
  show ?case
  proof (intro allI impI, elim conjE)
    fix n s ev s0 ev0
    assume o: "open_at B" and ex: "ex < length (fst B)" "fst (snd B) \<noteq> ex" "exit G = ex"
      and e: "ext (build ex bs cs (If c t None) B) G"
      and pos: "run_statements callee (snd (snd B)) s0 ev0 = Finished (s, ev)"
    define k where "k = length (fst B)"
    define B1 :: "('x, 's, 'e) builder"
      where "B1 = (close_block (Branch c k (Suc k)) B @ [None, None], k, [])"
    define B2 where "B2 = build ex bs cs t B1"
    have fin: "build ex bs cs (If c t None) B = (close_block (Fallthrough (Suc k)) B2, Suc k, [])"
      unfolding B2_def B1_def k_def by (simp add: build.simps Let_def)
    have o1: "open_at B1" unfolding B1_def
      by (rule start_open [OF o]) (simp_all add: k_def)
    have g12: "grown B1 B2" using build_grown(1) [of B1 ex bs cs t] o1 by (simp add: B2_def)
    have o2: "open_at B2" by (rule grown_open [OF g12])
    note c2 = close_ext [OF o2 e [unfolded fin]]
    have e1: "ext B1 G" by (rule ext_grown [OF o1 g12 c2(1)])
    note c0 = start_block [OF o ext_extends [OF e1, unfolded B1_def fst_conv]]
    have k2: "k \<le> fst (snd B2)"
      by (rule grown_current [OF g12]) (simp_all add: B1_def k_def)
    have ne2: "fst (snd B2) \<noteq> exit G" using k2 ex by (simp add: k_def)
    have IH: "\<forall>n s ev s0 ev0.
        open_at B1 \<and> ex < length (fst B1) \<and> fst (snd B1) \<noteq> ex \<and> ext B2 G \<and> exit G = ex \<and>
        run_statements callee (snd (snd B1)) s0 ev0 = Finished (s, ev) \<longrightarrow>
        simulates n callee G (fst (snd B1)) s0 ev0 (exec n callee t s ev)
          (fst (snd B2)) (snd (snd B2)) (innermost ex bs) (innermost ex cs)"
      unfolding B2_def B1_def k_def by (rule "3.IH" [OF refl refl refl])
    have body: "simulates n callee G k s1 ev1 (exec n callee t s1 ev1)
        (fst (snd B2)) (snd (snd B2)) (innermost ex bs) (innermost ex cs)" for s1 ev1
      using IH [rule_format, of s1 ev1 s1 ev1 n] o1 c2(1) ex
      by (simp add: B1_def k_def)
    have "simulates n callee G (fst (snd B)) s0 ev0 (exec n callee (If c t None) s ev)
        (Suc k) [] (innermost ex bs) (innermost ex cs)"
    proof (rule sim_If [OF pos _ c0])
      show "fst (snd B) \<noteq> exit G" using ex by simp
      show "simulates n callee G k s1 ev1 (exec n callee t s1 ev1) (Suc k) []
          (innermost ex bs) (innermost ex cs)" for s1 ev1
        by (rule simulates_close [OF body ne2 c2(2,3)])
      show "simulates n callee G (Suc k) s1 ev1
          (case None of None \<Rightarrow> (Normal, s1, ev1) | Some e' \<Rightarrow> exec n callee e' s1 ev1)
          (Suc k) [] (innermost ex bs) (innermost ex cs)" for s1 ev1
        using reach_refl [of callee G "Suc k" s1 ev1] by (auto simp: simulates_def)
    qed
    then show "simulates n callee G (fst (snd B)) s0 ev0 (exec n callee (If c t None) s ev)
        (fst (snd (build ex bs cs (If c t None) B)))
        (snd (snd (build ex bs cs (If c t None) B))) (innermost ex bs) (innermost ex cs)"
      by (simp add: fin)
  qed
next
  case (4 ex bs cs c t e B)
  show ?case
  proof (intro allI impI, elim conjE)
    fix n s ev s0 ev0
    assume o: "open_at B" and ex: "ex < length (fst B)" "fst (snd B) \<noteq> ex" "exit G = ex"
      and e: "ext (build ex bs cs (If c t (Some e)) B) G"
      and pos: "run_statements callee (snd (snd B)) s0 ev0 = Finished (s, ev)"
    define k where "k = length (fst B)"
    define B1 :: "('x, 's, 'e) builder"
      where "B1 = (close_block (Branch c k (Suc k)) B @ [None, None, None], k, [])"
    define B2 where "B2 = build ex bs cs t B1"
    define B3 :: "('x, 's, 'e) builder"
      where "B3 = (close_block (Fallthrough (Suc (Suc k))) B2, Suc k, [])"
    define B4 where "B4 = build ex bs cs e B3"
    have fin: "build ex bs cs (If c t (Some e)) B =
        (close_block (Fallthrough (Suc (Suc k))) B4, Suc (Suc k), [])"
      unfolding B4_def B3_def B2_def B1_def k_def by (simp add: build.simps Let_def)
    have o1: "open_at B1" unfolding B1_def
      by (rule start_open [OF o]) (simp_all add: k_def)
    have g12: "grown B1 B2" using build_grown(1) [of B1 ex bs cs t] o1 by (simp add: B2_def)
    have o2: "open_at B2" by (rule grown_open [OF g12])
    have e1': "Suc k < length (fst B1) \<and> fst B1 ! Suc k = None \<and> Suc k \<noteq> fst (snd B1)"
      by (simp add: B1_def k_def nth_append)
    have e2': "Suc k < length (fst B2) \<and> fst B2 ! Suc k = None \<and> Suc k \<noteq> fst (snd B2)"
      using grown_carry [OF g12] e1' by simp
    have o3: "open_at B3" using e2'
      by (auto simp: B3_def open_at_def close_block_def split: prod.splits)
    have g34: "grown B3 B4" using build_grown(1) [of B3 ex bs cs e] o3 by (simp add: B4_def)
    have o4: "open_at B4" by (rule grown_open [OF g34])
    note c4 = close_ext [OF o4 e [unfolded fin]]
    have e3: "ext B3 G" by (rule ext_grown [OF o3 g34 c4(1)])
    note c2 = close_ext [OF o2 e3 [unfolded B3_def]]
    have e1: "ext B1 G" by (rule ext_grown [OF o1 g12 c2(1)])
    note c0 = start_block [OF o ext_extends [OF e1, unfolded B1_def fst_conv]]
    have k2: "k \<le> fst (snd B2)"
      by (rule grown_current [OF g12]) (simp_all add: B1_def k_def)
    have ne2: "fst (snd B2) \<noteq> exit G" using k2 ex by (simp add: k_def)
    have k4: "k \<le> fst (snd B4)"
      by (rule grown_current [OF g34]) (use grown_length [OF g12] in \<open>simp_all add: B3_def B1_def k_def\<close>)
    have ne4: "fst (snd B4) \<noteq> exit G" using k4 ex by (simp add: k_def)
    have IH1: "\<forall>n s ev s0 ev0.
        open_at B1 \<and> ex < length (fst B1) \<and> fst (snd B1) \<noteq> ex \<and> ext B2 G \<and> exit G = ex \<and>
        run_statements callee (snd (snd B1)) s0 ev0 = Finished (s, ev) \<longrightarrow>
        simulates n callee G (fst (snd B1)) s0 ev0 (exec n callee t s ev)
          (fst (snd B2)) (snd (snd B2)) (innermost ex bs) (innermost ex cs)"
      unfolding B2_def B1_def k_def by (rule "4.IH"(1) [OF refl refl refl refl])
    have IH2: "\<forall>n s ev s0 ev0.
        open_at B3 \<and> ex < length (fst B3) \<and> fst (snd B3) \<noteq> ex \<and> ext B4 G \<and> exit G = ex \<and>
        run_statements callee (snd (snd B3)) s0 ev0 = Finished (s, ev) \<longrightarrow>
        simulates n callee G (fst (snd B3)) s0 ev0 (exec n callee e s ev)
          (fst (snd B4)) (snd (snd B4)) (innermost ex bs) (innermost ex cs)"
      unfolding B4_def B3_def B2_def B1_def k_def
      by (rule "4.IH"(2) [OF refl refl refl refl refl refl])
    have body1: "simulates n callee G k s1 ev1 (exec n callee t s1 ev1)
        (fst (snd B2)) (snd (snd B2)) (innermost ex bs) (innermost ex cs)" for s1 ev1
      using IH1 [rule_format, of s1 ev1 s1 ev1 n] o1 c2(1) ex
      by (simp add: B1_def k_def)
    have body2: "simulates n callee G (Suc k) s1 ev1 (exec n callee e s1 ev1)
        (fst (snd B4)) (snd (snd B4)) (innermost ex bs) (innermost ex cs)" for s1 ev1
      using IH2 [rule_format, of s1 ev1 s1 ev1 n] o3 c4(1) ex e2'
      by (simp add: B3_def k_def)
    have "simulates n callee G (fst (snd B)) s0 ev0 (exec n callee (If c t (Some e)) s ev)
        (Suc (Suc k)) [] (innermost ex bs) (innermost ex cs)"
    proof (rule sim_If [OF pos _ c0])
      show "fst (snd B) \<noteq> exit G" using ex by simp
      show "simulates n callee G k s1 ev1 (exec n callee t s1 ev1) (Suc (Suc k)) []
          (innermost ex bs) (innermost ex cs)" for s1 ev1
        by (rule simulates_close [OF body1 ne2 c2(2,3)])
      show "simulates n callee G (Suc k) s1 ev1
          (case Some e of None \<Rightarrow> (Normal, s1, ev1) | Some e' \<Rightarrow> exec n callee e' s1 ev1)
          (Suc (Suc k)) [] (innermost ex bs) (innermost ex cs)" for s1 ev1
        using simulates_close [OF body2 ne4 c4(2,3)] by simp
    qed
    then show "simulates n callee G (fst (snd B)) s0 ev0 (exec n callee (If c t (Some e)) s ev)
        (fst (snd (build ex bs cs (If c t (Some e)) B)))
        (snd (snd (build ex bs cs (If c t (Some e)) B))) (innermost ex bs) (innermost ex cs)"
      by (simp add: fin)
  qed
next
  case (5 ex bs cs test_first c step b B)
  show ?case
  proof (intro allI impI, elim conjE)
    fix n s ev s0 ev0
    assume o: "open_at B" and ex: "ex < length (fst B)" "fst (snd B) \<noteq> ex" "exit G = ex"
      and e: "ext (build ex bs cs (Loop test_first c step b) B) G"
      and pos: "run_statements callee (snd (snd B)) s0 ev0 = Finished (s, ev)"
    define h where "h = length (fst B)"
    define cont where "cont = (case step of None \<Rightarrow> h | Some a \<Rightarrow> Suc (Suc (Suc h)))"
    define latch where "latch = (case step of None \<Rightarrow> []
       | Some a \<Rightarrow> [Some \<lparr>statements = [a], terminator = Fallthrough h\<rparr>])"
    define B1 :: "('x, 's, 'e) builder"
      where "B1 = (close_block (Fallthrough (if test_first then h else Suc h)) B @
        [Some \<lparr>statements = [], terminator = Branch c (Suc h) (Suc (Suc h))\<rparr>, None, None] @ latch,
        Suc h, [])"
    define B2 where "B2 = build ex (Suc (Suc h) # bs) (cont # cs) b B1"
    have fin: "build ex bs cs (Loop test_first c step b) B =
        (close_block (Fallthrough cont) B2, Suc (Suc h), [])"
      unfolding B2_def B1_def h_def cont_def latch_def by (simp add: build.simps Let_def)
    have o1: "open_at B1" unfolding B1_def
      by (rule start_open [OF o]) (simp_all add: h_def)
    have g12: "grown B1 B2"
      using build_grown(1) [of B1 ex "Suc (Suc h) # bs" "cont # cs" b] o1 by (simp add: B2_def)
    have o2: "open_at B2" by (rule grown_open [OF g12])
    note c2 = close_ext [OF o2 e [unfolded fin]]
    have e1: "ext B1 G" by (rule ext_grown [OF o1 g12 c2(1)])
    have x1: "extends (fst B1) G" by (rule ext_extends [OF e1])
    note c0 = start_block [OF o x1 [unfolded B1_def fst_conv]]
    have hdr: "h < length (blocks G) \<and>
        blocks G ! h = \<lparr>statements = [], terminator = Branch c (Suc h) (Suc (Suc h))\<rparr>"
      by (rule extends_nth [OF x1]) (simp_all add: B1_def h_def nth_append)
    have lat: "step = Some a \<Longrightarrow> cont < length (blocks G) \<and>
        blocks G ! cont = \<lparr>statements = [a], terminator = Fallthrough h\<rparr>" for a
      by (rule extends_nth [OF x1]) (simp_all add: B1_def h_def cont_def latch_def nth_append)
    have k2: "h \<le> fst (snd B2)"
      by (rule grown_current [OF g12]) (simp_all add: B1_def h_def)
    have ne2: "fst (snd B2) \<noteq> exit G" using k2 ex by (simp add: h_def)
    have IH: "\<forall>n s ev s0 ev0.
        open_at B1 \<and> ex < length (fst B1) \<and> fst (snd B1) \<noteq> ex \<and> ext B2 G \<and> exit G = ex \<and>
        run_statements callee (snd (snd B1)) s0 ev0 = Finished (s, ev) \<longrightarrow>
        simulates n callee G (fst (snd B1)) s0 ev0 (exec n callee b s ev)
          (fst (snd B2)) (snd (snd B2))
          (innermost ex (Suc (Suc h) # bs)) (innermost ex (cont # cs))"
      unfolding B2_def B1_def h_def cont_def latch_def
      by (rule "5.IH" [OF refl refl refl refl refl refl refl])
    have body: "simulates n callee G (Suc h) s1 ev1 (exec n callee b s1 ev1)
        (fst (snd B2)) (snd (snd B2)) (Suc (Suc h)) cont" for n s1 ev1
      using IH [rule_format, of s1 ev1 s1 ev1 n] o1 c2(1) ex
      by (simp add: B1_def h_def innermost_def)
    have "simulates n callee G (fst (snd B)) s0 ev0 (exec n callee (Loop test_first c step b) s ev)
        (Suc (Suc h)) [] (innermost ex bs) (innermost ex cs)"
    proof (rule sim_Loop [OF pos _ c0, where cont = cont])
      show "fst (snd B) \<noteq> exit G" using ex by simp
      show "h \<noteq> exit G" using ex by (simp add: h_def)
      show "h < length (blocks G)" using hdr by simp
      show "blocks G ! h = \<lparr>statements = [], terminator = Branch c (Suc h) (Suc (Suc h))\<rparr>"
        using hdr by simp
      show "simulates n callee G (Suc h) s1 ev1 (exec n callee b s1 ev1) cont []
          (Suc (Suc h)) cont" for n s1 ev1
        by (rule simulates_close [OF body ne2 c2(2,3)])
      show "step = None \<Longrightarrow> cont = h" by (simp add: cont_def)
      show "step = Some a \<Longrightarrow> cont \<noteq> exit G \<and> cont < length (blocks G) \<and>
          blocks G ! cont = \<lparr>statements = [a], terminator = Fallthrough h\<rparr>" for a
        using lat [of a] ex by (simp add: cont_def h_def)
    qed
    then show "simulates n callee G (fst (snd B)) s0 ev0
        (exec n callee (Loop test_first c step b) s ev)
        (fst (snd (build ex bs cs (Loop test_first c step b) B)))
        (snd (snd (build ex bs cs (Loop test_first c step b) B)))
        (innermost ex bs) (innermost ex cs)"
      by (simp add: fin)
  qed
next
  case (6 ex bs cs v cases dflt B)
  show ?case
  proof (intro allI impI, elim conjE)
    fix n s ev s0 ev0
    assume o: "open_at B" and ex: "ex < length (fst B)" "fst (snd B) \<noteq> ex" "exit G = ex"
      and e: "ext (build ex bs cs (Switch v cases dflt) B) G"
      and pos: "run_statements callee (snd (snd B)) s0 ev0 = Finished (s, ev)"
    define k where "k = length (fst B)"
    define j where "j = (case dflt of None \<Rightarrow> k + length cases | Some ss \<Rightarrow> Suc (k + length cases))"
    define cl1 where "cl1 =
       close_block (SwitchDispatch v (zip (map fst cases) [k..<k + length cases]) (k + length cases)) B @
       replicate (Suc (j - k)) None"
    define cl2 where "cl2 = build_cases ex (j # bs) cs k cases dflt cl1"
    have fin: "build ex bs cs (Switch v cases dflt) B = (cl2, j, [])"
      unfolding cl2_def cl1_def j_def k_def by (simp add: build.simps Let_def)
    have j: "j = k + arm_count cases dflt"
      by (simp add: j_def arm_count_def split: option.splits)
    have l1: "length cl1 = Suc j" by (simp add: cl1_def k_def j)
    have none: "\<forall>i. k \<le> i \<and> i < k + arm_count cases dflt \<longrightarrow> cl1 ! i = None"
      by (auto simp: cl1_def k_def nth_append j simp flip: replicate_Suc)
    have ag: "arms_grown k (arm_count cases dflt) cl1 cl2"
      using build_grown(3) [of k cases dflt cl1 ex "j # bs" cs] l1 none j by (simp add: cl2_def)
    have x2: "extends cl2 G" using ext_extends [OF e] by (simp add: fin)
    have x1: "extends cl1 G" by (rule extends_arms [OF ag none x2])
    note c0 = start_block [OF o x1 [unfolded cl1_def]]
    have IH: "\<forall>n v matched s ev.
        k + arm_count cases dflt \<le> length cl1 \<and>
        (\<forall>j. k \<le> j \<and> j < k + arm_count cases dflt \<longrightarrow> cl1 ! j = None) \<and> ex < k \<and>
        extends cl2 G \<and> exit G = ex \<longrightarrow>
        simulates n callee G (if matched then k else k + first_match v (map fst cases)) s ev
          (exec_cases n callee v matched cases dflt s ev)
          (k + arm_count cases dflt) [] (innermost ex (j # bs)) (innermost ex cs)"
      unfolding cl2_def cl1_def j_def k_def
      by (rule "6.IH" [OF refl refl refl refl refl])
    have arms: "simulates n callee G (k + first_match w (map fst cases)) s1 ev1
        (exec_cases n callee w False cases dflt s1 ev1) j [] j (innermost ex cs)" for w s1 ev1
      using IH [rule_format, of n False w s1 ev1] l1 none x2 ex
      by (simp add: j innermost_def k_def)
    have "simulates n callee G (fst (snd B)) s0 ev0 (exec n callee (Switch v cases dflt) s ev)
        j [] (innermost ex bs) (innermost ex cs)"
    proof (rule sim_Switch [OF pos _ c0])
      show "fst (snd B) \<noteq> exit G" using ex by simp
      show "simulates n callee G (k + first_match w (map fst cases)) s1 ev1
          (exec_cases n callee w False cases dflt s1 ev1) j [] j (innermost ex cs)" for w s1 ev1
        by (rule arms)
    qed
    then show "simulates n callee G (fst (snd B)) s0 ev0 (exec n callee (Switch v cases dflt) s ev)
        (fst (snd (build ex bs cs (Switch v cases dflt) B)))
        (snd (snd (build ex bs cs (Switch v cases dflt) B))) (innermost ex bs) (innermost ex cs)"
      by (simp add: fin)
  qed
next
  case (7 ex bs cs B)
  show ?case
  proof (intro allI impI, elim conjE)
    fix n s ev s0 ev0
    assume o: "open_at B" and ex: "ex < length (fst B)" "fst (snd B) \<noteq> ex" "exit G = ex"
      and e: "ext (build ex bs cs Break B) G"
      and pos: "run_statements callee (snd (snd B)) s0 ev0 = Finished (s, ev)"
    have x: "extends (close_block (Fallthrough (innermost ex bs)) B @ [None]) G"
      using ext_extends [OF e] by (simp add: build.simps)
    note c0 = start_block [OF o x]
    show "simulates n callee G (fst (snd B)) s0 ev0 (exec n callee Break s ev)
        (fst (snd (build ex bs cs Break B))) (snd (snd (build ex bs cs Break B)))
        (innermost ex bs) (innermost ex cs)"
      by (rule sim_Break [OF pos _ c0]) (use ex in simp)
  qed
next
  case (8 ex bs cs B)
  show ?case
  proof (intro allI impI, elim conjE)
    fix n s ev s0 ev0
    assume o: "open_at B" and ex: "ex < length (fst B)" "fst (snd B) \<noteq> ex" "exit G = ex"
      and e: "ext (build ex bs cs Continue B) G"
      and pos: "run_statements callee (snd (snd B)) s0 ev0 = Finished (s, ev)"
    have x: "extends (close_block (Fallthrough (innermost ex cs)) B @ [None]) G"
      using ext_extends [OF e] by (simp add: build.simps)
    note c0 = start_block [OF o x]
    show "simulates n callee G (fst (snd B)) s0 ev0 (exec n callee Continue s ev)
        (fst (snd (build ex bs cs Continue B))) (snd (snd (build ex bs cs Continue B)))
        (innermost ex bs) (innermost ex cs)"
      by (rule sim_Continue [OF pos _ c0]) (use ex in simp)
  qed
next
  case (9 ex bs cs r B)
  show ?case
  proof (intro allI impI, elim conjE)
    fix n s ev s0 ev0
    assume o: "open_at B" and ex: "ex < length (fst B)" "fst (snd B) \<noteq> ex" "exit G = ex"
      and e: "ext (build ex bs cs (Return r) B) G"
      and pos: "run_statements callee (snd (snd B)) s0 ev0 = Finished (s, ev)"
    have x: "extends (close_block (Return_edge r) B @ [None]) G"
      using ext_extends [OF e] by (simp add: build.simps)
    note c0 = start_block [OF o x]
    show "simulates n callee G (fst (snd B)) s0 ev0 (exec n callee (Return r) s ev)
        (fst (snd (build ex bs cs (Return r) B))) (snd (snd (build ex bs cs (Return r) B)))
        (innermost ex bs) (innermost ex cs)"
      by (rule sim_Return [OF pos _ c0]) (use ex in simp)
  qed
next
  case (10 ex bs cs B)
  show ?case
    using reach_refl [of callee G "fst (snd B)"]
    by (fastforce simp: build_list.simps simulates_def)
next
  case (11 ex bs cs t ts B)
  show ?case
  proof (intro allI impI, elim conjE)
    fix n s ev s0 ev0
    assume o: "open_at B" and ex: "ex < length (fst B)" "fst (snd B) \<noteq> ex" "exit G = ex"
      and e: "ext (build_list ex bs cs (t # ts) B) G"
      and pos: "run_statements callee (snd (snd B)) s0 ev0 = Finished (s, ev)"
    define B1 where "B1 = build ex bs cs t B"
    define B2 where "B2 = build_list ex bs cs ts B1"
    have fin: "build_list ex bs cs (t # ts) B = B2"
      by (simp add: build_list.simps B2_def B1_def)
    have g1: "grown B B1" using build_grown(1) [of B ex bs cs t] o by (simp add: B1_def)
    have o1: "open_at B1" by (rule grown_open [OF g1])
    have g12: "grown B1 B2" using build_grown(2) [of B1 ex bs cs ts] o1 by (simp add: B2_def)
    have e2: "ext B2 G" using e by (simp add: fin)
    have e1: "ext B1 G" by (rule ext_grown [OF o1 g12 e2])
    have l1: "ex < length (fst B1)" using grown_length [OF g1] ex by simp
    have ne1: "fst (snd B1) \<noteq> ex"
      using g1 ex by (auto simp: grown_def split: prod.splits)
    have first: "simulates n callee G (fst (snd B)) s0 ev0 (exec n callee t s ev)
        (fst (snd B1)) (snd (snd B1)) (innermost ex bs) (innermost ex cs)"
      using "11.IH"(1) [rule_format, of s0 ev0 s ev n] o ex e1 pos by (simp add: B1_def)
    have rest: "run_statements callee (snd (snd B1)) s1 ev1 = Finished (s', ev') \<Longrightarrow>
        simulates n callee G (fst (snd B1)) s1 ev1 (exec_list n callee ts s' ev')
          (fst (snd B2)) (snd (snd B2)) (innermost ex bs) (innermost ex cs)" for s1 ev1 s' ev'
      using "11.IH"(2) [rule_format, of s1 ev1 s' ev' n] o1 l1 ne1 e2 ex
      by (simp add: B1_def B2_def)
    have "simulates n callee G (fst (snd B)) s0 ev0
        (case exec n callee t s ev of
           (fl, x', ev') \<Rightarrow> if fl = Normal then exec_list n callee ts x' ev' else (fl, x', ev'))
        (fst (snd B2)) (snd (snd B2)) (innermost ex bs) (innermost ex cs)"
      by (rule simulates_seq [OF first rest])
    then show "simulates n callee G (fst (snd B)) s0 ev0 (exec_list n callee (t # ts) s ev)
        (fst (snd (build_list ex bs cs (t # ts) B))) (snd (snd (build_list ex bs cs (t # ts) B)))
        (innermost ex bs) (innermost ex cs)"
      by (simp add: fin)
  qed
next
  case (12 ex bs cs i cl)
  show ?case
    using reach_refl [of callee G i]
    by (fastforce simp: arm_count_def simulates_def)
next
  case (13 ex bs cs i ss cl)
  show ?case
  proof (intro allI impI, elim conjE)
    fix n v matched s ev
    assume a: "i + arm_count [] (Some ss) \<le> length cl"
      "\<forall>j. i \<le> j \<and> j < i + arm_count [] (Some ss) \<longrightarrow> cl ! j = None"
      and ex: "ex < i" "exit G = ex"
      and x: "extends (build_cases ex bs cs i [] (Some ss) cl) G"
    define Ba where "Ba = build_list ex bs cs ss (cl, i, [])"
    have oi: "open_at (cl, i, [])" using a by (simp add: open_at_def arm_count_def)
    have g: "grown (cl, i, []) Ba" using build_grown(2) [of "(cl, i, [])" ex bs cs ss] oi
      by (simp add: Ba_def)
    have oa: "open_at Ba" by (rule grown_open [OF g])
    have xa: "extends (close_block (Fallthrough (Suc i)) Ba) G"
      using x by (simp add: build_cases.simps Ba_def)
    note ca = ext_close [OF oa xa]
    have ka: "i \<le> fst (snd Ba)"
      by (rule grown_current [OF g]) (use a in \<open>simp_all add: arm_count_def\<close>)
    have nea: "fst (snd Ba) \<noteq> exit G" using ka ex by simp
    have arm: "simulates n callee G i s ev (exec_list n callee ss s ev)
        (fst (snd Ba)) (snd (snd Ba)) (innermost ex bs) (innermost ex cs)"
      using "13.IH" [rule_format, of s ev s ev n] oi ca(1) ex a
      by (simp add: Ba_def arm_count_def)
    have "simulates n callee G i s ev (exec_list n callee ss s ev)
        (Suc i) [] (innermost ex bs) (innermost ex cs)"
      by (rule simulates_close [OF arm nea ca(2,3)])
    then show "simulates n callee G (if matched then i else i + first_match v (map fst []))
        s ev (exec_cases n callee v matched [] (Some ss) s ev)
        (i + arm_count [] (Some ss)) [] (innermost ex bs) (innermost ex cs)"
      by (simp add: arm_count_def)
  qed
next
  case (14 ex bs cs i l ss rest dflt cl)
  show ?case
  proof (intro allI impI, elim conjE)
    fix n v matched s ev
    assume a: "i + arm_count ((l, ss) # rest) dflt \<le> length cl"
      "\<forall>j. i \<le> j \<and> j < i + arm_count ((l, ss) # rest) dflt \<longrightarrow> cl ! j = None"
      and ex: "ex < i" "exit G = ex"
      and x: "extends (build_cases ex bs cs i ((l, ss) # rest) dflt cl) G"
    have ac: "arm_count ((l, ss) # rest) dflt = Suc (arm_count rest dflt)"
      by (simp add: arm_count_def)
    define Ba where "Ba = build_list ex bs cs ss (cl, i, [])"
    define cla where "cla = close_block (Fallthrough (Suc i)) Ba"
    define clr where "clr = build_cases ex bs cs (Suc i) rest dflt cla"
    have fin: "build_cases ex bs cs i ((l, ss) # rest) dflt cl = clr"
      by (simp add: build_cases.simps clr_def cla_def Ba_def)
    have i: "i < length cl" "cl ! i = None" using a by (simp_all add: ac)
    have oi: "open_at (cl, i, [])" using i by (simp add: open_at_def)
    have g: "grown (cl, i, []) Ba" using build_grown(2) [of "(cl, i, [])" ex bs cs ss] oi
      by (simp add: Ba_def)
    have oa: "open_at Ba" by (rule grown_open [OF g])
    have keep: "\<And>j. j < length cl \<Longrightarrow> j \<noteq> i \<Longrightarrow> cla ! j = cl ! j"
      using grown_arm [OF g i(1)] by (simp add: cla_def)
    have len: "length cl \<le> length cla"
      using grown_arm_length [OF g] by (simp add: cla_def)
    have pre: "Suc i + arm_count rest dflt \<le> length cla"
      "\<forall>j. Suc i \<le> j \<and> j < Suc i + arm_count rest dflt \<longrightarrow> cla ! j = None"
      using a keep len by (auto simp: ac)
    have ag: "arms_grown (Suc i) (arm_count rest dflt) cla clr"
      using build_grown(3) [of "Suc i" rest dflt cla ex bs cs] pre by (simp add: clr_def)
    have xr: "extends clr G" using x by (simp add: fin)
    have xa: "extends cla G" by (rule extends_arms [OF ag pre(2) xr])
    note ca = ext_close [OF oa xa [unfolded cla_def]]
    have ka: "i \<le> fst (snd Ba)"
      by (rule grown_current [OF g]) (use i in simp_all)
    have nea: "fst (snd Ba) \<noteq> exit G" using ka ex by simp
    have arm: "simulates n callee G i s ev (exec_list n callee ss s ev)
        (fst (snd Ba)) (snd (snd Ba)) (innermost ex bs) (innermost ex cs)"
      using "14.IH"(1) [rule_format, of s ev s ev n] oi ca(1) ex i
      by (simp add: Ba_def)
    have arm': "simulates n callee G i s ev (exec_list n callee ss s ev)
        (Suc i) [] (innermost ex bs) (innermost ex cs)"
      by (rule simulates_close [OF arm nea ca(2,3)])
    have IH2: "\<forall>n v matched s ev.
        Suc i + arm_count rest dflt \<le> length cla \<and>
        (\<forall>j. Suc i \<le> j \<and> j < Suc i + arm_count rest dflt \<longrightarrow> cla ! j = None) \<and> ex < Suc i \<and>
        extends clr G \<and> exit G = ex \<longrightarrow>
        simulates n callee G (if matched then Suc i else Suc i + first_match v (map fst rest)) s ev
          (exec_cases n callee v matched rest dflt s ev)
          (Suc i + arm_count rest dflt) [] (innermost ex bs) (innermost ex cs)"
      unfolding clr_def cla_def Ba_def by (rule "14.IH"(2))
    have rest: "simulates n callee G (if m then Suc i else Suc i + first_match v (map fst rest))
        s1 ev1 (exec_cases n callee v m rest dflt s1 ev1)
        (Suc i + arm_count rest dflt) [] (innermost ex bs) (innermost ex cs)" for m s1 ev1
      using IH2 [rule_format, of n m v s1 ev1] pre xr ex by simp
    show "simulates n callee G (if matched then i else i + first_match v (map fst ((l, ss) # rest)))
        s ev (exec_cases n callee v matched ((l, ss) # rest) dflt s ev)
        (i + arm_count ((l, ss) # rest) dflt) [] (innermost ex bs) (innermost ex cs)"
    proof (cases "matched \<or> l = v")
      case True
      have "simulates n callee G i s ev
          (case exec_list n callee ss s ev of
             (fl, x', ev') \<Rightarrow>
               if fl = Normal then exec_cases n callee v True rest dflt x' ev' else (fl, x', ev'))
          (Suc i + arm_count rest dflt) [] (innermost ex bs) (innermost ex cs)"
      proof (rule simulates_seq [OF arm'])
        fix s1 s' :: 'x and ev1 ev' :: "'e list"
        assume "run_statements callee [] s1 ev1 = Finished (s', ev')"
        then have "s1 = s'" "ev1 = ev'" by simp_all
        then show "simulates n callee G (Suc i) s1 ev1 (exec_cases n callee v True rest dflt s' ev')
            (Suc i + arm_count rest dflt) [] (innermost ex bs) (innermost ex cs)"
          using rest [of True s' ev'] by simp
      qed
      then show ?thesis using True by (auto simp: ac)
    next
      case False
      then show ?thesis using rest [of False s ev] by (simp add: ac)
    qed
  qed
qed

subsection \<open>No orphan jump leaves the body of a function\<close>

lemma loop_flow:
  "fst (exec n callee (Loop test_first c step b) x ev) \<noteq> Broke \<and>
   fst (exec n callee (Loop test_first c step b) x ev) \<noteq> Continued"
proof (induction n arbitrary: test_first x ev)
  case 0
  show ?case by (simp add: exec_Loop_0 split: option.splits)
next
  case (Suc m test_first x ev)
  show ?case
    using Suc.IH [of True]
    by (auto simp add: exec_Loop_Suc split: option.splits prod.splits)
qed

lemma orphan_flow:
  fixes t :: "('x, 's, 'e) stmt" and ts :: "('x, 's, 'e) stmt list"
    and cases :: "(int \<times> ('x, 's, 'e) stmt list) list" and dflt :: "('x, 's, 'e) stmt list option"
  shows "\<forall>x ev. orphan inb inl t = None \<longrightarrow>
      (fst (exec n callee t x ev) = Broke \<longrightarrow> inb) \<and> (fst (exec n callee t x ev) = Continued \<longrightarrow> inl)"
    and "\<forall>x ev. orphan_list inb inl ts = None \<longrightarrow>
      (fst (exec_list n callee ts x ev) = Broke \<longrightarrow> inb) \<and>
      (fst (exec_list n callee ts x ev) = Continued \<longrightarrow> inl)"
    and "\<forall>x ev v m. orphan_cases inb inl cases dflt = None \<longrightarrow>
      (fst (exec_cases n callee v m cases dflt x ev) = Broke \<longrightarrow> inb) \<and>
      (fst (exec_cases n callee v m cases dflt x ev) = Continued \<longrightarrow> inl)"
proof (induction inb inl t and inb inl ts and inb inl cases dflt
    rule: orphan_orphan_list_orphan_cases.induct)
  case (1 inb inl a)
  show ?case by (simp split: option.splits)
next
  case (2 inb inl ss)
  then show ?case by simp
next
  case (3 inb inl c t e)
  then show ?case by (auto split: option.splits)
next
  case (4 inb inl test_first c step b)
  show ?case using loop_flow [of n callee test_first c step b] by simp
next
  case (5 inb inl a cases dflt)
  show ?case
  proof (intro allI impI)
    fix x ev
    assume "orphan inb inl (Switch a cases dflt) = None"
    then have oc: "orphan_cases True inl cases dflt = None" by simp
    show "(fst (exec n callee (Switch a cases dflt) x ev) = Broke \<longrightarrow> inb) \<and>
        (fst (exec n callee (Switch a cases dflt) x ev) = Continued \<longrightarrow> inl)"
    proof (cases "perform callee a x")
      case None
      then show ?thesis by simp
    next
      case (Some p)
      obtain v x1 out where p: "p = (v, x1, out)" by (cases p)
      obtain fl x2 ev2 where e: "exec_cases n callee v False cases dflt x1 (ev @ out) = (fl, x2, ev2)"
        by (cases "exec_cases n callee v False cases dflt x1 (ev @ out)")
      have "fl = Continued \<longrightarrow> inl"
        using "5.IH" [rule_format, OF oc, of v False x1 "ev @ out"] by (simp add: e)
      then show ?thesis by (simp add: Some p e)
    qed
  qed
next
  case (6 inb inl)
  show ?case by simp
next
  case (7 inb inl)
  show ?case by simp
next
  case (8 inb inl r)
  show ?case by (cases r) (simp_all split: option.splits)
next
  case (9 inb inl)
  show ?case by simp
next
  case (10 inb inl t ts)
  then show ?case by (auto split: option.splits prod.splits) (metis fst_conv)+
next
  case (11 inb inl dflt)
  then show ?case by (auto split: option.splits)
next
  case (12 inb inl l ss rest dflt)
  then show ?case by (auto split: option.splits prod.splits) (metis fst_conv)+
qed

subsection \<open>More fuel and more calls that return\<close>

lemma exec_Loop_none:
  assumes "(if test_first then perform callee c x else Some (1, x, [])) = None"
  shows "exec n callee (Loop test_first c step b) x ev = (Fuel_out, x, ev)"
  using assms by (subst exec.simps(4)) simp

lemma exec_Loop_exit:
  assumes "(if test_first then perform callee c x else Some (1, x, [])) = Some (v, x1, out)"
    and "v = 0"
  shows "exec n callee (Loop test_first c step b) x ev = (Normal, x1, ev @ out)"
  using assms by (subst exec.simps(4)) simp

lemma exec_Loop_fuel:
  assumes "(if test_first then perform callee c x else Some (1, x, [])) = Some (v, x1, out)"
    and "v \<noteq> 0" and "n = 0"
  shows "exec n callee (Loop test_first c step b) x ev = (Fuel_out, x1, ev @ out)"
  using assms by (subst exec.simps(4)) simp

lemma exec_Loop_enter:
  assumes "(if test_first then perform callee c x else Some (1, x, [])) = Some (v, x1, out)"
    and "v \<noteq> 0" and "n \<noteq> 0" and "exec n callee b x1 (ev @ out) = (fl, x2, ev2)"
  shows "exec n callee (Loop test_first c step b) x ev =
     (if fl = Normal \<or> fl = Continued then
        (case step of
           None \<Rightarrow> exec (n - 1) callee (Loop True c step b) x2 ev2
         | Some a \<Rightarrow>
             (case perform callee a x2 of
                None \<Rightarrow> (Fuel_out, x2, ev2)
              | Some (w, x3, out3) \<Rightarrow> exec (n - 1) callee (Loop True c step b) x3 (ev2 @ out3)))
      else if fl = Broke then (Normal, x2, ev2)
      else (fl, x2, ev2))"
  using assms by (subst exec.simps(4)) simp

lemma exec_induct:
  fixes P :: "nat \<Rightarrow> ('s, 'e) callees \<Rightarrow> ('x, 's, 'e) stmt \<Rightarrow> 'x \<Rightarrow> 'e list \<Rightarrow> bool"
    and Q :: "nat \<Rightarrow> ('s, 'e) callees \<Rightarrow> ('x, 's, 'e) stmt list \<Rightarrow> 'x \<Rightarrow> 'e list \<Rightarrow> bool"
    and R :: "nat \<Rightarrow> ('s, 'e) callees \<Rightarrow> int \<Rightarrow> bool \<Rightarrow> (int \<times> ('x, 's, 'e) stmt list) list \<Rightarrow>
      ('x, 's, 'e) stmt list option \<Rightarrow> 'x \<Rightarrow> 'e list \<Rightarrow> bool"
  assumes "\<And>n callee a x ev. P n callee (ExprStatement a) x ev"
    and "\<And>n callee ss x ev. Q n callee ss x ev \<Longrightarrow> P n callee (Block ss) x ev"
    and "\<And>n callee c t e x ev.
      (\<And>v x1 out. perform callee c x = Some (v, x1, out) \<Longrightarrow> v \<noteq> 0 \<Longrightarrow> P n callee t x1 (ev @ out)) \<Longrightarrow>
      (\<And>v x1 out e'. perform callee c x = Some (v, x1, out) \<Longrightarrow> v = 0 \<Longrightarrow> e = Some e' \<Longrightarrow>
         P n callee e' x1 (ev @ out)) \<Longrightarrow>
      P n callee (If c t e) x ev"
    and "\<And>n callee test_first c step b x ev.
      (\<And>v x1 out. (if test_first then perform callee c x else Some (1, x, [])) = Some (v, x1, out) \<Longrightarrow>
         v \<noteq> 0 \<Longrightarrow> n \<noteq> 0 \<Longrightarrow> P n callee b x1 (ev @ out)) \<Longrightarrow>
      (\<And>v x1 out fl x2 ev2.
         (if test_first then perform callee c x else Some (1, x, [])) = Some (v, x1, out) \<Longrightarrow>
         v \<noteq> 0 \<Longrightarrow> n \<noteq> 0 \<Longrightarrow> exec n callee b x1 (ev @ out) = (fl, x2, ev2) \<Longrightarrow>
         fl = Normal \<or> fl = Continued \<Longrightarrow> step = None \<Longrightarrow>
         P (n - 1) callee (Loop True c step b) x2 ev2) \<Longrightarrow>
      (\<And>v x1 out fl x2 ev2 a w x3 out3.
         (if test_first then perform callee c x else Some (1, x, [])) = Some (v, x1, out) \<Longrightarrow>
         v \<noteq> 0 \<Longrightarrow> n \<noteq> 0 \<Longrightarrow> exec n callee b x1 (ev @ out) = (fl, x2, ev2) \<Longrightarrow>
         fl = Normal \<or> fl = Continued \<Longrightarrow> step = Some a \<Longrightarrow>
         perform callee a x2 = Some (w, x3, out3) \<Longrightarrow>
         P (n - 1) callee (Loop True c step b) x3 (ev2 @ out3)) \<Longrightarrow>
      P n callee (Loop test_first c step b) x ev"
    and "\<And>n callee a cases dflt x ev.
      (\<And>v x1 out. perform callee a x = Some (v, x1, out) \<Longrightarrow>
         R n callee v False cases dflt x1 (ev @ out)) \<Longrightarrow>
      P n callee (Switch a cases dflt) x ev"
    and "\<And>n callee x ev. P n callee Break x ev"
    and "\<And>n callee x ev. P n callee Continue x ev"
    and "\<And>n callee r x ev. P n callee (Return r) x ev"
    and "\<And>n callee x ev. Q n callee [] x ev"
    and "\<And>n callee t ts x ev.
      P n callee t x ev \<Longrightarrow>
      (\<And>x1 ev1. exec n callee t x ev = (Normal, x1, ev1) \<Longrightarrow> Q n callee ts x1 ev1) \<Longrightarrow>
      Q n callee (t # ts) x ev"
    and "\<And>n callee v matched dflt x ev.
      (\<And>ss. dflt = Some ss \<Longrightarrow> Q n callee ss x ev) \<Longrightarrow> R n callee v matched [] dflt x ev"
    and "\<And>n callee v matched l ss rest dflt x ev.
      (matched \<or> l = v \<Longrightarrow> Q n callee ss x ev) \<Longrightarrow>
      (\<And>x1 ev1. matched \<or> l = v \<Longrightarrow> exec_list n callee ss x ev = (Normal, x1, ev1) \<Longrightarrow>
         R n callee v True rest dflt x1 ev1) \<Longrightarrow>
      (\<not> (matched \<or> l = v) \<Longrightarrow> R n callee v False rest dflt x ev) \<Longrightarrow>
      R n callee v matched ((l, ss) # rest) dflt x ev"
  shows "P n callee t x ev" and "Q n callee ts x ev" and "R n callee v matched cases dflt x ev"
proof (induction n callee t x ev and n callee ts x ev and n callee v matched cases dflt x ev
    rule: exec_exec_list_exec_cases.induct)
  case (1 n callee a x ev)
  show ?case by (rule assms(1))
next
  case (2 n callee ss x ev)
  then show ?case by (rule assms(2))
next
  case (3 n callee c t e x ev)
  show ?case
  proof (rule assms(3))
    fix v x1 out
    assume a: "perform callee c x = Some (v, x1, out)" "v \<noteq> 0"
    show "P n callee t x1 (ev @ out)" by (rule "3.IH"(1) [OF a(1) refl refl a(2)])
  next
    fix v x1 out e'
    assume a: "perform callee c x = Some (v, x1, out)" "v = 0" "e = Some e'"
    have "\<not> v \<noteq> 0" using a(2) by simp
    show "P n callee e' x1 (ev @ out)" by (rule "3.IH"(2) [OF a(1) refl refl \<open>\<not> v \<noteq> 0\<close> a(3)])
  qed
next
  case (4 n callee test_first c step b x ev)
  show ?case
  proof (rule assms(4))
    fix v x1 out
    assume a: "(if test_first then perform callee c x else Some (1, x, [])) = Some (v, x1, out)"
      "v \<noteq> 0" "n \<noteq> 0"
    show "P n callee b x1 (ev @ out)" by (rule "4.IH"(1) [OF a(1) refl refl a(2) a(3)])
  next
    fix v x1 out fl x2 ev2
    assume a: "(if test_first then perform callee c x else Some (1, x, [])) = Some (v, x1, out)"
      "v \<noteq> 0" "n \<noteq> 0" "exec n callee b x1 (ev @ out) = (fl, x2, ev2)"
      "fl = Normal \<or> fl = Continued" "step = None"
    show "P (n - 1) callee (Loop True c step b) x2 ev2"
      by (rule "4.IH"(2) [OF a(1) refl refl a(2) a(3) a(4) [symmetric] refl a(5) a(6)])
  next
    fix v x1 out fl x2 ev2 a w x3 out3
    assume a: "(if test_first then perform callee c x else Some (1, x, [])) = Some (v, x1, out)"
      "v \<noteq> 0" "n \<noteq> 0" "exec n callee b x1 (ev @ out) = (fl, x2, ev2)"
      "fl = Normal \<or> fl = Continued" "step = Some a" "perform callee a x2 = Some (w, x3, out3)"
    show "P (n - 1) callee (Loop True c step b) x3 (ev2 @ out3)"
      by (rule "4.IH"(3) [OF a(1) refl refl a(2) a(3) a(4) [symmetric] refl a(5) a(6) a(7) refl refl])
  qed
next
  case (5 n callee a cases dflt x ev)
  show ?case
  proof (rule assms(5))
    fix v x1 out
    assume a: "perform callee a x = Some (v, x1, out)"
    show "R n callee v False cases dflt x1 (ev @ out)"
      by (rule "5.IH" [OF a refl refl])
  qed
next
  case (6 n callee x ev)
  show ?case by (rule assms(6))
next
  case (7 n callee x ev)
  show ?case by (rule assms(7))
next
  case (8 n callee x ev)
  show ?case by (rule assms(8))
next
  case (9 n callee a x ev)
  show ?case by (rule assms(8))
next
  case (10 n callee x ev)
  show ?case by (rule assms(9))
next
  case (11 n callee t ts x ev)
  show ?case
  proof (rule assms(10))
    show "P n callee t x ev" by (rule "11.IH"(1))
  next
    fix x1 ev1
    assume a: "exec n callee t x ev = (Normal, x1, ev1)"
    show "Q n callee ts x1 ev1"
      by (rule "11.IH"(2) [OF a [symmetric] refl refl])
  qed
next
  case (12 n callee v matched dflt x ev)
  then show ?case by (intro assms(11)) simp
next
  case (13 n callee v matched l ss rest dflt x ev)
  show ?case
  proof (rule assms(12))
    show "matched \<or> l = v \<Longrightarrow> Q n callee ss x ev" by (rule "13.IH"(1))
  next
    fix x1 ev1
    assume a: "matched \<or> l = v" "exec_list n callee ss x ev = (Normal, x1, ev1)"
    show "R n callee v True rest dflt x1 ev1"
      by (rule "13.IH"(2) [OF a(1) a(2) [symmetric] refl refl])
  next
    show "\<not> (matched \<or> l = v) \<Longrightarrow> R n callee v False rest dflt x ev" by (rule "13.IH"(3))
  qed
qed

lemma sub_callees_refl: "sub_callees callee callee"
  by (simp add: sub_callees_def)

lemma sub_callees_trans:
  "sub_callees a b \<Longrightarrow> sub_callees b c \<Longrightarrow> sub_callees a c"
  unfolding sub_callees_def by blast

lemma resolve_mono:
  assumes "sub_callees callee callee'"
  shows "resolve callee oc = Some r \<Longrightarrow> resolve callee' oc = Some r"
proof (induction oc arbitrary: r)
  case (Value v x out)
  then show ?case by simp
next
  case (Invoke f s k)
  from Invoke.prems obtain q s' out where q: "callee f s = Some (q, s', out)"
    by (auto split: option.splits)
  then have q': "callee' f s = Some (q, s', out)" using assms unfolding sub_callees_def by blast
  from Invoke.prems q obtain v x out' where
    k: "resolve callee (k q s') = Some (v, x, out')" and r: "r = (v, x, out @ out')"
    by (auto split: option.splits)
  have "resolve callee' (k q s') = Some (v, x, out')"
    by (rule Invoke.IH [OF rangeI rangeI k])
  then show ?case by (simp add: q' r)
qed

lemma perform_mono:
  assumes "sub_callees callee callee'" and "perform callee a x = Some r"
  shows "perform callee' a x = Some r"
  using resolve_mono [OF assms(1)] assms(2) by (simp add: perform_def)

lemma exec_mono_all:
  fixes t :: "('x, 's, 'e) stmt" and ts :: "('x, 's, 'e) stmt list"
    and cases :: "(int \<times> ('x, 's, 'e) stmt list) list" and dflt :: "('x, 's, 'e) stmt list option"
  shows "\<forall>n' callee'. n \<le> n' \<longrightarrow> sub_callees callee callee' \<longrightarrow>
      fst (exec n callee t x ev) \<noteq> Fuel_out \<longrightarrow> exec n' callee' t x ev = exec n callee t x ev"
    and "\<forall>n' callee'. n \<le> n' \<longrightarrow> sub_callees callee callee' \<longrightarrow>
      fst (exec_list n callee ts x ev) \<noteq> Fuel_out \<longrightarrow>
      exec_list n' callee' ts x ev = exec_list n callee ts x ev"
    and "\<forall>n' callee'. n \<le> n' \<longrightarrow> sub_callees callee callee' \<longrightarrow>
      fst (exec_cases n callee v matched cases dflt x ev) \<noteq> Fuel_out \<longrightarrow>
      exec_cases n' callee' v matched cases dflt x ev = exec_cases n callee v matched cases dflt x ev"
proof (induction n callee t x ev and n callee ts x ev and n callee v matched cases dflt x ev
    rule: exec_induct)
  case (1 n callee a x ev)
  show ?case
    by (cases "perform callee a x") (auto dest: perform_mono)
next
  case (2 n callee ss x ev)
  then show ?case by simp
next
  case (3 n callee c t e x ev)
  show ?case
  proof (intro allI impI)
    fix n' callee'
    assume a: "n \<le> n'" "sub_callees callee callee'"
      "fst (exec n callee (If c t e) x ev) \<noteq> Fuel_out"
    then obtain v x1 out where p: "perform callee c x = Some (v, x1, out)"
      by (cases "perform callee c x") auto
    have p': "perform callee' c x = Some (v, x1, out)" by (rule perform_mono [OF a(2) p])
    show "exec n' callee' (If c t e) x ev = exec n callee (If c t e) x ev"
    proof (cases "v = 0")
      case False
      then show ?thesis using "3.IH"(1) [OF p False] a by (simp add: p p')
    next
      case True
      show ?thesis
      proof (cases e)
        case None
        then show ?thesis by (simp add: p p' True)
      next
        case (Some e')
        then show ?thesis using "3.IH"(2) [OF p True Some] a by (simp add: p p' True)
      qed
    qed
  qed
next
  case (4 n callee test_first c step b x ev)
  show ?case
  proof (intro allI impI)
    fix n' callee'
    assume a: "n \<le> n'" "sub_callees callee callee'"
      "fst (exec n callee (Loop test_first c step b) x ev) \<noteq> Fuel_out"
    let ?h = "\<lambda>callee. if test_first then perform callee c x else Some (1, x, [])"
    obtain v x1 out where p: "?h callee = Some (v, x1, out)"
      using a(3) exec_Loop_none [of test_first callee c x n step b ev]
      by (cases "?h callee") auto
    have p': "?h callee' = Some (v, x1, out)"
      using p perform_mono [OF a(2), of c x] by (auto split: if_splits)
    show "exec n' callee' (Loop test_first c step b) x ev =
        exec n callee (Loop test_first c step b) x ev"
    proof (cases "v = 0")
      case True
      show ?thesis
        by (simp add: exec_Loop_exit [OF p True] exec_Loop_exit [OF p' True])
    next
      case False
      have n: "n \<noteq> 0"
      proof
        assume "n = 0"
        from exec_Loop_fuel [OF p False this, of step b ev] a(3) show False by simp
      qed
      then have n': "n' \<noteq> 0" using a(1) by simp
      obtain fl x2 ev2 where e: "exec n callee b x1 (ev @ out) = (fl, x2, ev2)"
        by (cases "exec n callee b x1 (ev @ out)")
      note u = exec_Loop_enter [OF p False n e, of step]
      have fl: "fl \<noteq> Fuel_out" using a(3) by (auto simp: u)
      have e': "exec n' callee' b x1 (ev @ out) = (fl, x2, ev2)"
        using "4.IH"(1) [OF p False n] a(1,2) fl by (simp add: e)
      note u' = exec_Loop_enter [OF p' False n' e', of step]
      show ?thesis
      proof (cases "fl = Normal \<or> fl = Continued")
        case nc: True
        show ?thesis
        proof (cases step)
          case None
          have "fst (exec (n - 1) callee (Loop True c step b) x2 ev2) \<noteq> Fuel_out"
            using a(3) nc unfolding u by (simp add: None)
          then have "exec (n' - 1) callee' (Loop True c step b) x2 ev2 =
              exec (n - 1) callee (Loop True c step b) x2 ev2"
            using "4.IH"(2) [OF p False n e nc None] a(1,2) by simp
          then show ?thesis using nc unfolding u u' by (simp add: None)
        next
          case (Some st)
          obtain w x3 out3 where q: "perform callee st x2 = Some (w, x3, out3)"
            using a(3) nc unfolding u by (cases "perform callee st x2") (auto simp: Some)
          have q': "perform callee' st x2 = Some (w, x3, out3)"
            by (rule perform_mono [OF a(2) q])
          have "fst (exec (n - 1) callee (Loop True c step b) x3 (ev2 @ out3)) \<noteq> Fuel_out"
            using a(3) nc unfolding u by (simp add: Some q)
          then have "exec (n' - 1) callee' (Loop True c step b) x3 (ev2 @ out3) =
              exec (n - 1) callee (Loop True c step b) x3 (ev2 @ out3)"
            using "4.IH"(3) [OF p False n e nc Some q] a(1,2) by simp
          then show ?thesis using nc unfolding u u' by (simp add: Some q q')
        qed
      next
        case False
        then show ?thesis by (simp add: u u')
      qed
    qed
  qed
next
  case (5 n callee a cases dflt x ev)
  show ?case
  proof (intro allI impI)
    fix n' callee'
    assume a: "n \<le> n'" "sub_callees callee callee'"
      "fst (exec n callee (Switch a cases dflt) x ev) \<noteq> Fuel_out"
    then obtain v x1 out where p: "perform callee a x = Some (v, x1, out)"
      by (cases "perform callee a x") auto
    have p': "perform callee' a x = Some (v, x1, out)" by (rule perform_mono [OF a(2) p])
    have "fst (exec_cases n callee v False cases dflt x1 (ev @ out)) \<noteq> Fuel_out"
      using a(3) by (auto simp: p split: prod.splits if_splits)
    then have "exec_cases n' callee' v False cases dflt x1 (ev @ out) =
        exec_cases n callee v False cases dflt x1 (ev @ out)"
      using "5.IH" [OF p] a(1,2) by simp
    then show "exec n' callee' (Switch a cases dflt) x ev = exec n callee (Switch a cases dflt) x ev"
      by (simp add: p p')
  qed
next
  case (6 n callee x ev)
  show ?case by simp
next
  case (7 n callee x ev)
  show ?case by simp
next
  case (8 n callee r x ev)
  show ?case
  proof (cases r)
    case None
    then show ?thesis by simp
  next
    case (Some a)
    show ?thesis unfolding Some
      by (cases "perform callee a x") (auto dest: perform_mono)
  qed
next
  case (9 n callee x ev)
  show ?case by simp
next
  case (10 n callee t ts x ev)
  show ?case
  proof (intro allI impI)
    fix n' callee'
    assume a: "n \<le> n'" "sub_callees callee callee'"
      "fst (exec_list n callee (t # ts) x ev) \<noteq> Fuel_out"
    obtain fl x1 ev1 where e: "exec n callee t x ev = (fl, x1, ev1)"
      by (cases "exec n callee t x ev")
    have fl: "fl \<noteq> Fuel_out" using a(3) by (auto simp: e)
    have e': "exec n' callee' t x ev = (fl, x1, ev1)"
      using "10.IH"(1) a(1,2) fl by (simp add: e)
    show "exec_list n' callee' (t # ts) x ev = exec_list n callee (t # ts) x ev"
    proof (cases "fl = Normal")
      case True
      then show ?thesis using "10.IH"(2) [of x1 ev1] a by (simp add: e e')
    next
      case False
      then show ?thesis by (simp add: e e')
    qed
  qed
next
  case (11 n callee v matched dflt x ev)
  then show ?case by (cases dflt) simp_all
next
  case (12 n callee v matched l ss rest dflt x ev)
  show ?case
  proof (intro allI impI)
    fix n' callee'
    assume a: "n \<le> n'" "sub_callees callee callee'"
      "fst (exec_cases n callee v matched ((l, ss) # rest) dflt x ev) \<noteq> Fuel_out"
    show "exec_cases n' callee' v matched ((l, ss) # rest) dflt x ev =
        exec_cases n callee v matched ((l, ss) # rest) dflt x ev"
    proof (cases "matched \<or> l = v")
      case True
      obtain fl x1 ev1 where e: "exec_list n callee ss x ev = (fl, x1, ev1)"
        by (cases "exec_list n callee ss x ev")
      have fl: "fl \<noteq> Fuel_out" using a(3) True by (auto simp: e)
      have e': "exec_list n' callee' ss x ev = (fl, x1, ev1)"
        using "12.IH"(1) [OF True] a(1,2) fl by (simp add: e)
      show ?thesis
      proof (cases "fl = Normal")
        case n: True
        then show ?thesis using "12.IH"(2) [OF True, of x1 ev1] a True by (simp add: e e')
      next
        case False
        then show ?thesis using True by (simp add: e e')
      qed
    next
      case False
      then show ?thesis using "12.IH"(3) [OF False] a by simp
    qed
  qed
qed

lemma exec_mono:
  assumes "n \<le> n'" and "sub_callees callee callee'" and "fst (exec n callee t x ev) \<noteq> Fuel_out"
  shows "exec n' callee' t x ev = exec n callee t x ev"
  using exec_mono_all(1) [of n callee t x ev] assms by simp

lemma exec_list_mono:
  assumes "n \<le> n'" and "sub_callees callee callee'" and "fst (exec_list n callee ts x ev) \<noteq> Fuel_out"
  shows "exec_list n' callee' ts x ev = exec_list n callee ts x ev"
  using exec_mono_all(2) [of n callee ts x ev] assms by simp

lemma exec_cases_mono:
  assumes "n \<le> n'" and "sub_callees callee callee'"
    and "fst (exec_cases n callee v matched cases dflt x ev) \<noteq> Fuel_out"
  shows "exec_cases n' callee' v matched cases dflt x ev = exec_cases n callee v matched cases dflt x ev"
  using exec_mono_all(3) [of n callee v matched cases dflt x ev] assms by simp

lemma approximates_chain: "approximates level limit \<Longrightarrow> k \<le> k' \<Longrightarrow> sub_callees (level k) (level k')"
  by (simp add: approximates_def)

lemma approximates_below: "approximates level limit \<Longrightarrow> sub_callees (level k) limit"
  by (simp add: approximates_def)

lemma resolve_cont:
  assumes "approximates level limit"
  shows "resolve limit oc = Some r \<Longrightarrow> \<exists>k. resolve (level k) oc = Some r"
proof (induction oc arbitrary: r)
  case (Value v x out)
  then show ?case by simp
next
  case (Invoke f s c)
  from Invoke.prems obtain q s' out where q: "limit f s = Some (q, s', out)"
    by (auto split: option.splits)
  then obtain k1 where q1: "level k1 f s = Some (q, s', out)"
    using assms unfolding approximates_def by blast
  from Invoke.prems q obtain v x out' where
    c: "resolve limit (c q s') = Some (v, x, out')" and r: "r = (v, x, out @ out')"
    by (auto split: option.splits)
  obtain k2 where c2: "resolve (level k2) (c q s') = Some (v, x, out')"
    using Invoke.IH [OF rangeI rangeI c] ..
  let ?k = "max k1 k2"
  have "level ?k f s = Some (q, s', out)"
    using approximates_chain [OF assms, of k1 ?k] q1 unfolding sub_callees_def by auto
  moreover have "resolve (level ?k) (c q s') = Some (v, x, out')"
    by (rule resolve_mono [OF approximates_chain [OF assms] c2]) simp
  ultimately have "resolve (level ?k) (Invoke f s c) = Some r" by (simp add: r)
  then show ?case ..
qed

lemma perform_cont:
  assumes "approximates level limit" and "perform limit a x = Some r"
  shows "\<exists>k. perform (level k) a x = Some r"
  using resolve_cont [OF assms(1)] assms(2) by (simp add: perform_def)

lemma exec_lift:
  assumes "approximates level callee" and "exec n (level k) t x ev = exec n callee t x ev"
    and "fst (exec n callee t x ev) \<noteq> Fuel_out" and "k \<le> k'"
  shows "exec n (level k') t x ev = exec n callee t x ev"
  using exec_mono [OF le_refl approximates_chain [OF assms(1) assms(4)], of n t x ev] assms(2,3)
  by simp

lemma exec_cont_all:
  fixes t :: "('x, 's, 'e) stmt" and ts :: "('x, 's, 'e) stmt list"
    and cases :: "(int \<times> ('x, 's, 'e) stmt list) list" and dflt :: "('x, 's, 'e) stmt list option"
  shows "approximates level callee \<longrightarrow> fst (exec n callee t x ev) \<noteq> Fuel_out \<longrightarrow>
      (\<exists>k. exec n (level k) t x ev = exec n callee t x ev)"
    and "approximates level callee \<longrightarrow> fst (exec_list n callee ts x ev) \<noteq> Fuel_out \<longrightarrow>
      (\<exists>k. exec_list n (level k) ts x ev = exec_list n callee ts x ev)"
    and "approximates level callee \<longrightarrow> fst (exec_cases n callee v matched cases dflt x ev) \<noteq> Fuel_out \<longrightarrow>
      (\<exists>k. exec_cases n (level k) v matched cases dflt x ev =
           exec_cases n callee v matched cases dflt x ev)"
proof (induction n callee t x ev and n callee ts x ev and n callee v matched cases dflt x ev
    rule: exec_induct)
  case (1 n callee a x ev)
  show ?case
  proof (intro impI)
    assume ap: "approximates level callee" and f: "fst (exec n callee (ExprStatement a) x ev) \<noteq> Fuel_out"
    then obtain r where p: "perform callee a x = Some r" by (cases "perform callee a x") auto
    obtain k where "perform (level k) a x = Some r" using perform_cont [OF ap p] ..
    then have "exec n (level k) (ExprStatement a) x ev = exec n callee (ExprStatement a) x ev"
      by (simp add: p)
    then show "\<exists>k. exec n (level k) (ExprStatement a) x ev = exec n callee (ExprStatement a) x ev" ..
  qed
next
  case (2 n callee ss x ev)
  then show ?case by simp
next
  case (3 n callee c t e x ev)
  show ?case
  proof (intro impI)
    assume ap: "approximates level callee" and f: "fst (exec n callee (If c t e) x ev) \<noteq> Fuel_out"
    then obtain v x1 out where p: "perform callee c x = Some (v, x1, out)"
      by (cases "perform callee c x") auto
    obtain k1 where p1: "perform (level k1) c x = Some (v, x1, out)"
      using perform_cont [OF ap p] ..
    show "\<exists>k. exec n (level k) (If c t e) x ev = exec n callee (If c t e) x ev"
    proof (cases "v = 0")
      case False
      have fr: "fst (exec n callee t x1 (ev @ out)) \<noteq> Fuel_out" using f False by (simp add: p)
      obtain k2 where r2: "exec n (level k2) t x1 (ev @ out) = exec n callee t x1 (ev @ out)"
        using "3.IH"(1) [OF p False] ap fr by auto
      let ?k = "max k1 k2"
      have "perform (level ?k) c x = Some (v, x1, out)"
        by (rule perform_mono [OF approximates_chain [OF ap] p1]) simp
      moreover have "exec n (level ?k) t x1 (ev @ out) = exec n callee t x1 (ev @ out)"
        by (rule exec_lift [OF ap r2 fr]) simp
      ultimately have "exec n (level ?k) (If c t e) x ev = exec n callee (If c t e) x ev"
        using False by (simp add: p)
      then show ?thesis ..
    next
      case True
      show ?thesis
      proof (cases e)
        case None
        have "exec n (level k1) (If c t e) x ev = exec n callee (If c t e) x ev"
          by (simp add: p p1 True None)
        then show ?thesis ..
      next
        case (Some e')
        have fr: "fst (exec n callee e' x1 (ev @ out)) \<noteq> Fuel_out"
          using f True by (simp add: p Some)
        obtain k2 where r2: "exec n (level k2) e' x1 (ev @ out) = exec n callee e' x1 (ev @ out)"
          using "3.IH"(2) [OF p True Some] ap fr by auto
        let ?k = "max k1 k2"
        have "perform (level ?k) c x = Some (v, x1, out)"
          by (rule perform_mono [OF approximates_chain [OF ap] p1]) simp
        moreover have "exec n (level ?k) e' x1 (ev @ out) = exec n callee e' x1 (ev @ out)"
          by (rule exec_lift [OF ap r2 fr]) simp
        ultimately have "exec n (level ?k) (If c t e) x ev = exec n callee (If c t e) x ev"
          using True by (simp add: p Some)
        then show ?thesis ..
      qed
    qed
  qed
next
  case (4 n callee test_first c step b x ev)
  show ?case
  proof (intro impI)
    assume ap: "approximates level callee"
      and f: "fst (exec n callee (Loop test_first c step b) x ev) \<noteq> Fuel_out"
    let ?h = "\<lambda>callee. if test_first then perform callee c x else Some (1, x, [])"
    obtain v x1 out where p: "?h callee = Some (v, x1, out)"
      using f exec_Loop_none [of test_first callee c x n step b ev]
      by (cases "?h callee") auto
    have "\<exists>k1. ?h (level k1) = Some (v, x1, out)"
      using p perform_cont [OF ap, of c x] by (auto split: if_splits)
    then obtain k1 where p1: "?h (level k1) = Some (v, x1, out)" ..
    have pk: "k1 \<le> k \<Longrightarrow> ?h (level k) = Some (v, x1, out)" for k
      using p1 perform_mono [OF approximates_chain [OF ap], of k1 k c x] by (auto split: if_splits)
    show "\<exists>k. exec n (level k) (Loop test_first c step b) x ev =
        exec n callee (Loop test_first c step b) x ev"
    proof (cases "v = 0")
      case True
      have "exec n (level k1) (Loop test_first c step b) x ev =
          exec n callee (Loop test_first c step b) x ev"
        by (simp add: exec_Loop_exit [OF p True] exec_Loop_exit [OF p1 True])
      then show ?thesis ..
    next
      case False
      have n: "n \<noteq> 0"
      proof
        assume "n = 0"
        from exec_Loop_fuel [OF p False this, of step b ev] f show False by simp
      qed
      obtain fl x2 ev2 where e: "exec n callee b x1 (ev @ out) = (fl, x2, ev2)"
        by (cases "exec n callee b x1 (ev @ out)")
      note u = exec_Loop_enter [OF p False n e, of step]
      have fl: "fl \<noteq> Fuel_out" using f by (auto simp: u)
      obtain k2 where e2: "exec n (level k2) b x1 (ev @ out) = (fl, x2, ev2)"
        using "4.IH"(1) [OF p False n] ap fl by (auto simp: e)
      have ek: "k2 \<le> k \<Longrightarrow> exec n (level k) b x1 (ev @ out) = (fl, x2, ev2)" for k
        using exec_mono [OF le_refl approximates_chain [OF ap], of k2 k n b x1 "ev @ out"] e2 fl
        by simp
      show ?thesis
      proof (cases "fl = Normal \<or> fl = Continued")
        case nc: True
        show ?thesis
        proof (cases step)
          case None
          have fr: "fst (exec (n - 1) callee (Loop True c step b) x2 ev2) \<noteq> Fuel_out"
            using f nc unfolding u by (simp add: None)
          obtain k3 where r3: "exec (n - 1) (level k3) (Loop True c step b) x2 ev2 =
              exec (n - 1) callee (Loop True c step b) x2 ev2"
            using "4.IH"(2) [OF p False n e nc None] ap fr by auto
          let ?k = "max k1 (max k2 k3)"
          have "exec (n - 1) (level ?k) (Loop True c step b) x2 ev2 =
              exec (n - 1) callee (Loop True c step b) x2 ev2"
            using exec_mono [OF le_refl approximates_chain [OF ap], of k3 ?k "n - 1"
                "Loop True c step b" x2 ev2] r3 fr by simp
          moreover have pk': "?h (level ?k) = Some (v, x1, out)" by (rule pk) simp
          moreover have ek': "exec n (level ?k) b x1 (ev @ out) = (fl, x2, ev2)" by (rule ek) simp
          ultimately have "exec n (level ?k) (Loop test_first c step b) x ev =
              exec n callee (Loop test_first c step b) x ev"
            using nc unfolding u exec_Loop_enter [OF pk' False n ek', of step]
            by (simp add: None)
          then show ?thesis ..
        next
          case (Some st)
          obtain w x3 out3 where q: "perform callee st x2 = Some (w, x3, out3)"
            using f nc unfolding u by (cases "perform callee st x2") (auto simp: Some)
          obtain k4 where q4: "perform (level k4) st x2 = Some (w, x3, out3)"
            using perform_cont [OF ap q] ..
          have fr: "fst (exec (n - 1) callee (Loop True c step b) x3 (ev2 @ out3)) \<noteq> Fuel_out"
            using f nc unfolding u by (simp add: Some q)
          obtain k3 where r3: "exec (n - 1) (level k3) (Loop True c step b) x3 (ev2 @ out3) =
              exec (n - 1) callee (Loop True c step b) x3 (ev2 @ out3)"
            using "4.IH"(3) [OF p False n e nc Some q] ap fr by auto
          let ?k = "max (max k1 k4) (max k2 k3)"
          have "exec (n - 1) (level ?k) (Loop True c step b) x3 (ev2 @ out3) =
              exec (n - 1) callee (Loop True c step b) x3 (ev2 @ out3)"
            using exec_mono [OF le_refl approximates_chain [OF ap], of k3 ?k "n - 1"
                "Loop True c step b" x3 "ev2 @ out3"] r3 fr by simp
          moreover have "perform (level ?k) st x2 = Some (w, x3, out3)"
            by (rule perform_mono [OF approximates_chain [OF ap] q4]) simp
          moreover have pk': "?h (level ?k) = Some (v, x1, out)" by (rule pk) simp
          moreover have ek': "exec n (level ?k) b x1 (ev @ out) = (fl, x2, ev2)" by (rule ek) simp
          ultimately have "exec n (level ?k) (Loop test_first c step b) x ev =
              exec n callee (Loop test_first c step b) x ev"
            using nc unfolding u exec_Loop_enter [OF pk' False n ek', of step]
            by (simp add: Some q)
          then show ?thesis ..
        qed
      next
        case False
        let ?k = "max k1 k2"
        have pk': "?h (level ?k) = Some (v, x1, out)" by (rule pk) simp
        have ek': "exec n (level ?k) b x1 (ev @ out) = (fl, x2, ev2)" by (rule ek) simp
        have "exec n (level ?k) (Loop test_first c step b) x ev =
            exec n callee (Loop test_first c step b) x ev"
          using False unfolding u exec_Loop_enter [OF pk' \<open>v \<noteq> 0\<close> n ek', of step]
          by simp
        then show ?thesis ..
      qed
    qed
  qed
next
  case (5 n callee a cases dflt x ev)
  show ?case
  proof (intro impI)
    assume ap: "approximates level callee"
      and f: "fst (exec n callee (Switch a cases dflt) x ev) \<noteq> Fuel_out"
    then obtain v x1 out where p: "perform callee a x = Some (v, x1, out)"
      by (cases "perform callee a x") auto
    obtain k1 where p1: "perform (level k1) a x = Some (v, x1, out)"
      using perform_cont [OF ap p] ..
    have fr: "fst (exec_cases n callee v False cases dflt x1 (ev @ out)) \<noteq> Fuel_out"
      using f by (auto simp: p split: prod.splits if_splits)
    obtain k2 where r2: "exec_cases n (level k2) v False cases dflt x1 (ev @ out) =
        exec_cases n callee v False cases dflt x1 (ev @ out)"
      using "5.IH" [OF p] ap fr by auto
    let ?k = "max k1 k2"
    have "perform (level ?k) a x = Some (v, x1, out)"
      by (rule perform_mono [OF approximates_chain [OF ap] p1]) simp
    moreover have "exec_cases n (level ?k) v False cases dflt x1 (ev @ out) =
        exec_cases n callee v False cases dflt x1 (ev @ out)"
      using exec_cases_mono [OF le_refl approximates_chain [OF ap], of k2 ?k n v False cases dflt
          x1 "ev @ out"] r2 fr by simp
    ultimately have "exec n (level ?k) (Switch a cases dflt) x ev =
        exec n callee (Switch a cases dflt) x ev"
      by (simp add: p)
    then show "\<exists>k. exec n (level k) (Switch a cases dflt) x ev =
        exec n callee (Switch a cases dflt) x ev" ..
  qed
next
  case (6 n callee x ev)
  show ?case by simp
next
  case (7 n callee x ev)
  show ?case by simp
next
  case (8 n callee r x ev)
  show ?case
  proof (cases r)
    case None
    then show ?thesis by simp
  next
    case (Some a)
    show ?thesis unfolding Some
    proof (intro impI)
      assume ap: "approximates level callee"
        and f: "fst (exec n callee (Return (Some a)) x ev) \<noteq> Fuel_out"
      then obtain q where p: "perform callee a x = Some q" by (cases "perform callee a x") auto
      obtain k where "perform (level k) a x = Some q" using perform_cont [OF ap p] ..
      then have "exec n (level k) (Return (Some a)) x ev = exec n callee (Return (Some a)) x ev"
        by (simp add: p)
      then show "\<exists>k. exec n (level k) (Return (Some a)) x ev =
          exec n callee (Return (Some a)) x ev" ..
    qed
  qed
next
  case (9 n callee x ev)
  show ?case by simp
next
  case (10 n callee t ts x ev)
  show ?case
  proof (intro impI)
    assume ap: "approximates level callee"
      and f: "fst (exec_list n callee (t # ts) x ev) \<noteq> Fuel_out"
    obtain fl x1 ev1 where e: "exec n callee t x ev = (fl, x1, ev1)"
      by (cases "exec n callee t x ev")
    have fl: "fl \<noteq> Fuel_out" using f by (auto simp: e)
    obtain k1 where e1: "exec n (level k1) t x ev = (fl, x1, ev1)"
      using "10.IH"(1) ap fl by (auto simp: e)
    show "\<exists>k. exec_list n (level k) (t # ts) x ev = exec_list n callee (t # ts) x ev"
    proof (cases "fl = Normal")
      case True
      have fr: "fst (exec_list n callee ts x1 ev1) \<noteq> Fuel_out" using f True by (simp add: e)
      obtain k2 where r2: "exec_list n (level k2) ts x1 ev1 = exec_list n callee ts x1 ev1"
        using "10.IH"(2) [of x1 ev1] ap fr e True by auto
      let ?k = "max k1 k2"
      have "exec n (level ?k) t x ev = (fl, x1, ev1)"
        using exec_mono [OF le_refl approximates_chain [OF ap], of k1 ?k n t x ev] e1 fl by simp
      moreover have "exec_list n (level ?k) ts x1 ev1 = exec_list n callee ts x1 ev1"
        using exec_list_mono [OF le_refl approximates_chain [OF ap], of k2 ?k n ts x1 ev1] r2 fr
        by simp
      ultimately have "exec_list n (level ?k) (t # ts) x ev = exec_list n callee (t # ts) x ev"
        by (simp add: e)
      then show ?thesis ..
    next
      case False
      then have "exec_list n (level k1) (t # ts) x ev = exec_list n callee (t # ts) x ev"
        by (simp add: e e1)
      then show ?thesis ..
    qed
  qed
next
  case (11 n callee v matched dflt x ev)
  then show ?case by (cases dflt) simp_all
next
  case (12 n callee v matched l ss rest dflt x ev)
  show ?case
  proof (intro impI)
    assume ap: "approximates level callee"
      and f: "fst (exec_cases n callee v matched ((l, ss) # rest) dflt x ev) \<noteq> Fuel_out"
    show "\<exists>k. exec_cases n (level k) v matched ((l, ss) # rest) dflt x ev =
        exec_cases n callee v matched ((l, ss) # rest) dflt x ev"
    proof (cases "matched \<or> l = v")
      case True
      obtain fl x1 ev1 where e: "exec_list n callee ss x ev = (fl, x1, ev1)"
        by (cases "exec_list n callee ss x ev")
      have fl: "fl \<noteq> Fuel_out" using f True by (auto simp: e)
      obtain k1 where e1: "exec_list n (level k1) ss x ev = (fl, x1, ev1)"
        using "12.IH"(1) [OF True] ap fl by (auto simp: e)
      show ?thesis
      proof (cases "fl = Normal")
        case n: True
        have fr: "fst (exec_cases n callee v True rest dflt x1 ev1) \<noteq> Fuel_out"
          using f True n by (simp add: e)
        obtain k2 where r2: "exec_cases n (level k2) v True rest dflt x1 ev1 =
            exec_cases n callee v True rest dflt x1 ev1"
          using "12.IH"(2) [OF True, of x1 ev1] ap fr e n by auto
        let ?k = "max k1 k2"
        have "exec_list n (level ?k) ss x ev = (fl, x1, ev1)"
          using exec_list_mono [OF le_refl approximates_chain [OF ap], of k1 ?k n ss x ev] e1 fl
          by simp
        moreover have "exec_cases n (level ?k) v True rest dflt x1 ev1 =
            exec_cases n callee v True rest dflt x1 ev1"
          using exec_cases_mono [OF le_refl approximates_chain [OF ap], of k2 ?k n v True rest dflt
              x1 ev1] r2 fr by simp
        ultimately have "exec_cases n (level ?k) v matched ((l, ss) # rest) dflt x ev =
            exec_cases n callee v matched ((l, ss) # rest) dflt x ev"
          using True by (simp add: e)
        then show ?thesis ..
      next
        case False
        then have "exec_cases n (level k1) v matched ((l, ss) # rest) dflt x ev =
            exec_cases n callee v matched ((l, ss) # rest) dflt x ev"
          using True by (simp add: e e1)
        then show ?thesis ..
      qed
    next
      case False
      then show ?thesis using "12.IH"(3) [OF False] ap f by simp
    qed
  qed
qed

lemma exec_cont:
  assumes "approximates level callee" and "fst (exec n callee t x ev) \<noteq> Fuel_out"
  shows "\<exists>k. exec n (level k) t x ev = exec n callee t x ev"
  using exec_cont_all(1) [of level callee n t x ev] assms by simp

subsection \<open>The flattened function simulates the CFG, block by block\<close>

lemma resolve_extend_outcome:
  "resolve callee (extend_outcome g oc) =
     (case resolve callee oc of None \<Rightarrow> None | Some (v, x, out) \<Rightarrow> Some (v, g v x, out))"
proof (induction oc)
  case (Value v x out)
  show ?case by simp
next
  case (Invoke f s k)
  show ?case
    by (simp add: Invoke.IH [OF rangeI rangeI] split: option.splits)
qed

lemma perform_lift:
  "perform callee (lift a) (x, st, r) =
     (case perform callee a x of None \<Rightarrow> None | Some (v, x', out) \<Rightarrow> Some (v, (x', st, r), out))"
  by (simp add: perform_def lift_def resolve_extend_outcome)

lemma perform_carry:
  "perform callee (carry a) (x, st, r) =
     (case perform callee a x of None \<Rightarrow> None | Some (v, x', out) \<Rightarrow> Some (v, (x', st, Some v), out))"
  by (simp add: perform_def carry_def resolve_extend_outcome)

lemma perform_set_state: "perform callee (set_state k) (x, st, r) = Some (int k, (x, int k, r), [])"
  by (simp add: perform_def set_state_def)

lemma perform_read_state: "perform callee read_state (x, st, r) = Some (st, (x, st, r), [])"
  by (simp add: perform_def read_state_def)

lemma perform_not_done:
  "perform callee (not_done k) (x, st, r) = Some (if st \<noteq> int k then 1 else 0, (x, st, r), [])"
  by (simp add: perform_def not_done_def)

lemma exec_goto_state:
  "exec n callee (goto_state numbering t) (x, st, r) ev = (Normal, (x, int (numbering ! t), r), ev)"
  by (simp add: goto_state_def perform_set_state)

lemma exec_return_carried:
  "exec n callee return_carried (x, st, r) ev = (Returned r, (x, st, r), ev)"
  by (cases r) (simp_all add: return_carried_def perform_def has_carried_def read_carried_def)

lemma exec_list_lifted:
  "exec_list n callee (map (\<lambda>a. ExprStatement (lift a)) as @ rest) (x, st, r) ev =
     (case run_statements callee as x ev of
        Finished (x', ev') \<Rightarrow> exec_list n callee rest (x', st, r) ev'
      | Interrupted (x', ev') \<Rightarrow> (Fuel_out, (x', st, r), ev'))"
proof (induction as arbitrary: x ev)
  case Nil
  show ?case by simp
next
  case (Cons a as)
  show ?case
  proof (cases "perform callee a x")
    case None
    then show ?thesis by (simp add: perform_lift)
  next
    case (Some p)
    obtain v x' out where p: "p = (v, x', out)" by (cases p)
    show ?thesis using Cons.IH [of x' "ev @ out"] by (simp add: perform_lift Some p)
  qed
qed

lemma exec_cases_table:
  "exec_cases n callee v False (map (\<lambda>(l, t). (l, [goto_state numbering t, Break])) cs)
     (Some [goto_state numbering d]) (x, st, r) ev =
   (case map_of cs v of
      Some t \<Rightarrow> (Broke, (x, int (numbering ! t), r), ev)
    | None \<Rightarrow> (Normal, (x, int (numbering ! d), r), ev))"
  by (induction cs) (auto simp: exec_goto_state)

lemma exec_next_state_code:
  "exec_list n callee (next_state_code numbering ex t) (x, st, None) ev =
     after_edge numbering ex st (follow callee t x ev)"
proof (cases t)
  case (Fallthrough x1)
  then show ?thesis by (simp add: after_edge_def exec_goto_state)
next
  case (Branch c t1 t2)
  show ?thesis
  proof (cases "perform callee c x")
    case None
    then show ?thesis using Branch by (simp add: after_edge_def perform_lift)
  next
    case (Some p)
    obtain v x' out where p: "p = (v, x', out)" by (cases p)
    show ?thesis using Branch by (simp add: after_edge_def exec_goto_state perform_lift Some p)
  qed
next
  case (Return_edge x3)
  show ?thesis
  proof (cases x3)
    case None
    with Return_edge show ?thesis by (simp add: after_edge_def exec_goto_state)
  next
    case (Some a)
    show ?thesis
    proof (cases "perform callee a x")
      case None
      then show ?thesis using Return_edge Some by (simp add: after_edge_def perform_carry)
    next
      case (Some p)
      obtain v x' out where p: "p = (v, x', out)" by (cases p)
      show ?thesis using Return_edge \<open>x3 = Some a\<close>
        by (simp add: after_edge_def exec_goto_state perform_carry Some p)
    qed
  qed
next
  case (SwitchDispatch a cs d)
  show ?thesis
  proof (cases "perform callee a x")
    case None
    then show ?thesis using SwitchDispatch by (simp add: after_edge_def perform_lift)
  next
    case (Some p)
    obtain v x' out where p: "p = (v, x', out)" by (cases p)
    show ?thesis using SwitchDispatch
      by (simp add: after_edge_def perform_lift Some p exec_cases_table split: option.splits)
  qed
qed

lemma exec_arm:
  "exec_list n callee (arm numbering ex b) (x, st, None) ev =
     after_edge numbering ex st (run_block callee b x ev)"
  by (simp add: arm_def exec_list_lifted run_block_def exec_next_state_code after_edge_def
      split: attempt.splits prod.splits)

lemma exec_cases_skip:
  "\<forall>i\<in>set pre. fst (f i) \<noteq> v \<Longrightarrow>
   exec_cases n callee v False (map f pre @ rest) d x ev = exec_cases n callee v False rest d x ev"
proof (induction pre)
  case Nil
  show ?case by simp
next
  case (Cons i pre)
  obtain l ss where fi: "f i = (l, ss)" by (cases "f i") auto
  with Cons show ?case by simp
qed

lemma upt_split: "pc < k \<Longrightarrow> [0..<k] = [0..<pc] @ pc # [Suc pc..<k]"
  using upt_add_eq_append [of 0 pc "k - pc"] upt_conv_Cons [of pc k] by simp

lemma after_edge_flow:
  "fst (after_edge numbering ex st att) = Broke \<or> fst (after_edge numbering ex st att) = Fuel_out"
  by (simp add: after_edge_def split: attempt.splits prod.splits edge.splits)

lemma exec_dispatch:
  assumes "valid_numbering numbering cfg" and "pc < length (blocks cfg)"
  shows "exec n callee (dispatch numbering cfg) (x, int (numbering ! pc), None) ev =
     (case after_edge numbering (exit cfg) (int (numbering ! pc))
             (run_block callee (blocks cfg ! pc) x ev) of
        (fl, y) \<Rightarrow> (if fl = Broke then Normal else fl, y))"
proof -
  let ?f = "\<lambda>i. (int (numbering ! i), arm numbering (exit cfg) (blocks cfg ! i))"
  let ?v = "int (numbering ! pc)"
  have d: "distinct numbering" and len: "length numbering = length (blocks cfg)"
    using assms(1) by (simp_all add: valid_numbering_def)
  have "\<forall>i\<in>set [0..<pc]. fst (?f i) \<noteq> ?v"
    using d len assms(2) by (auto simp: nth_eq_iff_index_eq)
  then have skip: "exec_cases n callee ?v False (map ?f [0..<pc] @ rest) None (x, ?v, None) ev =
      exec_cases n callee ?v False rest None (x, ?v, None) ev" for rest
    by (rule exec_cases_skip)
  obtain fl y ev' where ae:
    "after_edge numbering (exit cfg) ?v (run_block callee (blocks cfg ! pc) x ev) = (fl, y, ev')"
    by (cases "after_edge numbering (exit cfg) ?v (run_block callee (blocks cfg ! pc) x ev)") auto
  have fl: "fl \<noteq> Normal" using after_edge_flow [of numbering "exit cfg" ?v
      "run_block callee (blocks cfg ! pc) x ev"] ae by auto
  have "exec_cases n callee ?v False (map ?f [0..<length (blocks cfg)]) None (x, ?v, None) ev =
      (fl, y, ev')"
    by (simp add: upt_split [OF assms(2)] skip exec_arm ae fl)
  then show ?thesis
    by (simp add: dispatch_def perform_read_state ae)
qed

lemma exec_list_loop_return:
  "exec_list n callee [w, return_carried] x ev = finish (exec n callee w x ev)"
  by (cases "exec n callee w x ev"; cases x)
     (auto simp: finish_def exec_return_carried split: prod.splits)

lemma run_cfg_in_range:
  "run_cfg n callee cfg pc x ev = Some res \<Longrightarrow> pc = exit cfg \<or> pc < length (blocks cfg)"
  by (subst (asm) run_cfg.simps) (auto split: if_splits)

lemma loop_simulation:
  assumes ex: "exit cfg < length (blocks cfg)" and num: "valid_numbering numbering cfg"
  shows "run_cfg n callee cfg pc x ev = Some res \<Longrightarrow>
    observe (finish (exec n callee (While (not_done (numbering ! exit cfg)) (dispatch numbering cfg))
       (x, int (numbering ! pc), None) ev)) = res"
proof (induction n arbitrary: pc x ev)
  case (0 pc x ev)
  have d: "distinct numbering" and len: "length numbering = length (blocks cfg)"
    using num by (simp_all add: valid_numbering_def)
  have pc: "pc < length (blocks cfg)" using run_cfg_in_range [OF "0.prems"] ex by auto
  show ?case
  proof (cases "pc = exit cfg")
    case True
    then show ?thesis using "0.prems"
      by (simp add: run_cfg.simps While_def exec_Loop_0 perform_not_done finish_def observe_def)
  next
    case False
    then have "numbering ! pc \<noteq> numbering ! exit cfg"
      using d len ex pc by (simp add: nth_eq_iff_index_eq)
    with False pc "0.prems" show ?thesis
      by (simp add: run_cfg.simps While_def exec_Loop_0 perform_not_done finish_def observe_def)
  qed
next
  case (Suc n pc x ev)
  have d: "distinct numbering" and len: "length numbering = length (blocks cfg)"
    using num by (simp_all add: valid_numbering_def)
  have pc: "pc < length (blocks cfg)" using run_cfg_in_range [OF Suc.prems] ex by auto
  let ?W = "Loop True (not_done (numbering ! exit cfg)) None (dispatch numbering cfg)"
  show ?case
  proof (cases "pc = exit cfg")
    case True
    then show ?thesis using Suc.prems
      by (simp add: run_cfg.simps While_def exec_Loop_Suc perform_not_done finish_def observe_def)
  next
    case False
    then have ne: "numbering ! pc \<noteq> numbering ! exit cfg"
      using d len ex pc by (simp add: nth_eq_iff_index_eq)
    show ?thesis
    proof (cases "run_block callee (blocks cfg ! pc) x ev")
      case (Interrupted r)
      obtain e x' ev' where r: "r = (e, x', ev')" by (cases r)
      have "run_cfg (Suc n) callee cfg pc x ev = Some (Fuel_out, x', ev')"
        using False pc by (subst run_cfg.simps) (simp add: Interrupted r)
      moreover have "exec (Suc n) callee ?W (x, int (numbering ! pc), None) ev =
          (Fuel_out, (x', int (numbering ! pc), None), ev')"
        using ne by (simp add: exec_Loop_Suc perform_not_done exec_dispatch [OF num pc]
            Interrupted r after_edge_def)
      ultimately show ?thesis using Suc.prems by (simp add: While_def finish_def observe_def)
    next
      case (Finished r)
      obtain e x' ev' where r: "r = (e, x', ev')" by (cases r)
      show ?thesis
      proof (cases e)
        case (Goto p)
        have run: "run_cfg (Suc n) callee cfg pc x ev = run_cfg n callee cfg p x' ev'"
          using False pc by (subst run_cfg.simps) (simp add: Finished r Goto)
        have "exec (Suc n) callee ?W (x, int (numbering ! pc), None) ev =
            exec n callee ?W (x', int (numbering ! p), None) ev'"
          using ne by (simp add: exec_Loop_Suc perform_not_done exec_dispatch [OF num pc]
              Finished r Goto after_edge_def)
        then show ?thesis using Suc.IH [of p x' ev'] Suc.prems run by (simp add: While_def)
      next
        case (Leave v)
        have "exec (Suc n) callee ?W (x, int (numbering ! pc), None) ev =
            exec n callee ?W (x', int (numbering ! exit cfg), v) ev'"
          using ne by (simp add: exec_Loop_Suc perform_not_done exec_dispatch [OF num pc]
              Finished r Leave after_edge_def)
        also have "\<dots> = (Normal, (x', int (numbering ! exit cfg), v), ev')"
          by (cases n) (simp_all add: exec_Loop_0 exec_Loop_Suc perform_not_done)
        finally have "observe (finish (exec (Suc n) callee ?W (x, int (numbering ! pc), None) ev)) =
            (Returned v, x', ev')"
          by (simp add: finish_def observe_def)
        moreover have "run_cfg (Suc n) callee cfg pc x ev = Some (Returned v, x', ev')"
          using False pc by (subst run_cfg.simps) (simp add: Finished r Leave)
        ultimately show ?thesis using Suc.prems by (simp add: While_def)
      qed
    qed
  qed
qed

lemma exec_list_goto_state:
  "exec_list n callee (goto_state numbering t # rest) (x, st, r) ev =
     exec_list n callee rest (x, int (numbering ! t), r) ev"
  by (simp add: exec_goto_state)

lemma flatten_simulation:
  assumes "exit cfg < length (blocks cfg)" and "valid_numbering numbering cfg"
    and "execute_cfg n callee cfg x = Some res"
  shows "execute_flattened n callee (tree (flatten numbering cfg)) x = res"
proof -
  let ?W = "While (not_done (numbering ! exit cfg)) (dispatch numbering cfg)"
  have "exec n callee (tree (flatten numbering cfg)) (x, 0, None) [] =
      exec_list n callee (goto_state numbering (entry cfg) # [?W, return_carried]) (x, 0, None) []"
    by (simp add: flatten_def)
  also have "\<dots> = exec_list n callee [?W, return_carried] (x, int (numbering ! entry cfg), None) []"
    by (rule exec_list_goto_state)
  also have "\<dots> = finish (exec n callee ?W (x, int (numbering ! entry cfg), None) [])"
    by (rule exec_list_loop_return)
  finally show ?thesis
    unfolding execute_flattened_def
    using loop_simulation [OF assms(1,2), of n callee "entry cfg" x "[]" res] assms(3)
    by (simp add: execute_cfg_def)
qed

subsection \<open>Encrypting the literals does not change what a statement tree does\<close>

lemma perform_encrypt_act: "perform callee (fst (encrypt_act keygen c a)) x = perform callee a x"
proof -
  obtain ls c' where e: "encrypt_lits keygen c (lits a) = (ls, c')"
    by (cases "encrypt_lits keygen c (lits a)") auto
  show ?thesis
    using lit_bytes_encrypt_lits [of keygen c "lits a"] e
    by (simp add: perform_def encrypt_act_def)
qed

lemma enc_ExprStatement:
  "fst (encrypt_stmt keygen c (ExprStatement a)) = ExprStatement (fst (encrypt_act keygen c a))"
  by (simp add: encrypt_stmt.simps case_prod_unfold)

lemma enc_Block:
  "fst (encrypt_stmt keygen c (Block ss)) = Block (fst (encrypt_stmts keygen c ss))"
  by (simp add: encrypt_stmt.simps case_prod_unfold)

lemma enc_If:
  "\<exists>c1 c2. fst (encrypt_stmt keygen c (If a t e)) =
     If (fst (encrypt_act keygen c a)) (fst (encrypt_stmt keygen c1 t))
       (map_option (\<lambda>e'. fst (encrypt_stmt keygen c2 e')) e)"
  by (cases e) (simp_all add: encrypt_stmt.simps case_prod_unfold, blast+)

lemma enc_Loop:
  "\<exists>c1 c2. \<forall>test_first. fst (encrypt_stmt keygen c (Loop test_first a st b)) =
     Loop test_first (fst (encrypt_act keygen c a))
       (map_option (\<lambda>s. fst (encrypt_act keygen c1 s)) st) (fst (encrypt_stmt keygen c2 b))"
  by (cases st) (simp_all add: encrypt_stmt.simps case_prod_unfold, blast+)

lemma enc_Switch:
  "\<exists>c1 c2. fst (encrypt_stmt keygen c (Switch a cs d)) =
     Switch (fst (encrypt_act keygen c a)) (fst (encrypt_cases keygen c1 cs))
       (map_option (\<lambda>ds. fst (encrypt_stmts keygen c2 ds)) d)"
  by (cases d) (simp_all add: encrypt_stmt.simps case_prod_unfold, blast+)

lemma enc_Return:
  "fst (encrypt_stmt keygen c (Return r)) =
     Return (map_option (\<lambda>a. fst (encrypt_act keygen c a)) r)"
  by (cases r) (simp_all add: encrypt_stmt.simps case_prod_unfold)

lemma enc_stmts_Cons:
  "\<exists>c1. fst (encrypt_stmts keygen c (t # ts)) =
     fst (encrypt_stmt keygen c t) # fst (encrypt_stmts keygen c1 ts)"
  by (simp add: encrypt_stmts.simps case_prod_unfold) blast

lemma enc_cases_Cons:
  "\<exists>c1. fst (encrypt_cases keygen c ((l, ss) # rest)) =
     (l, fst (encrypt_stmts keygen c ss)) # fst (encrypt_cases keygen c1 rest)"
  by (simp add: encrypt_cases.simps case_prod_unfold) blast

lemma exec_encrypt:
  fixes t :: "('x, 's, 'e) stmt" and ts :: "('x, 's, 'e) stmt list"
    and cases :: "(int \<times> ('x, 's, 'e) stmt list) list" and dflt :: "('x, 's, 'e) stmt list option"
  shows "\<forall>c. exec n callee (fst (encrypt_stmt keygen c t)) x ev = exec n callee t x ev"
    and "\<forall>c. exec_list n callee (fst (encrypt_stmts keygen c ts)) x ev = exec_list n callee ts x ev"
    and "\<forall>c c'. exec_cases n callee v matched (fst (encrypt_cases keygen c cases))
         (map_option (\<lambda>ds. fst (encrypt_stmts keygen c' ds)) dflt) x ev =
       exec_cases n callee v matched cases dflt x ev"
proof (induction n callee t x ev and n callee ts x ev and n callee v matched cases dflt x ev
    rule: exec_induct)
  case (1 n callee a x ev)
  show ?case by (simp add: enc_ExprStatement perform_encrypt_act)
next
  case (2 n callee ss x ev)
  then show ?case by (simp add: enc_Block)
next
  case (3 n callee c t e x ev)
  show ?case
  proof
    fix k
    obtain c1 c2 where enc: "fst (encrypt_stmt keygen k (If c t e)) =
        If (fst (encrypt_act keygen k c)) (fst (encrypt_stmt keygen c1 t))
          (map_option (\<lambda>e'. fst (encrypt_stmt keygen c2 e')) e)"
      using enc_If by blast
    show "exec n callee (fst (encrypt_stmt keygen k (If c t e))) x ev = exec n callee (If c t e) x ev"
    proof (cases "perform callee c x")
      case None
      then show ?thesis unfolding enc by (simp add: perform_encrypt_act)
    next
      case (Some p)
      obtain v x1 out where p: "perform callee c x = Some (v, x1, out)"
        using Some by (cases p) auto
      show ?thesis
      proof (cases "v = 0")
        case False
        then show ?thesis using "3.IH"(1) [OF p False] unfolding enc
          by (simp add: perform_encrypt_act p)
      next
        case True
        show ?thesis
        proof (cases e)
          case None
          then show ?thesis unfolding enc by (simp add: perform_encrypt_act p True)
        next
          case (Some e')
          then show ?thesis using "3.IH"(2) [OF p True Some] unfolding enc
            by (simp add: perform_encrypt_act p True)
        qed
      qed
    qed
  qed
next
  case (4 n callee test_first c step b x ev)
  show ?case
  proof
    fix k
    obtain c1 c2 where enc: "\<And>tf. fst (encrypt_stmt keygen k (Loop tf c step b)) =
        Loop tf (fst (encrypt_act keygen k c))
          (map_option (\<lambda>s. fst (encrypt_act keygen c1 s)) step) (fst (encrypt_stmt keygen c2 b))"
      using enc_Loop [of keygen k c step b] by blast
    let ?c = "fst (encrypt_act keygen k c)"
    let ?st = "map_option (\<lambda>s. fst (encrypt_act keygen c1 s)) step"
    let ?b = "fst (encrypt_stmt keygen c2 b)"
    let ?h = "if test_first then perform callee c x else Some (1, x, [])"
    have h': "(if test_first then perform callee ?c x else Some (1, x, [])) = ?h"
      by (simp add: perform_encrypt_act)
    have "exec n callee (Loop test_first ?c ?st ?b) x ev = exec n callee (Loop test_first c step b) x ev"
    proof (cases ?h)
      case None
      show ?thesis
        by (simp add: exec_Loop_none [OF None] exec_Loop_none [OF h' [unfolded None]])
    next
      case (Some p)
      obtain v x1 out where p: "?h = Some (v, x1, out)" using Some by (cases p) auto
      note p' = h' [unfolded p]
      show ?thesis
      proof (cases "v = 0")
        case True
        show ?thesis by (simp add: exec_Loop_exit [OF p True] exec_Loop_exit [OF p' True])
      next
        case False
        show ?thesis
        proof (cases "n = 0")
          case True
          show ?thesis
            by (simp add: exec_Loop_fuel [OF p False True] exec_Loop_fuel [OF p' False True])
        next
          case n: False
          obtain fl x2 ev2 where e: "exec n callee b x1 (ev @ out) = (fl, x2, ev2)"
            by (cases "exec n callee b x1 (ev @ out)")
          have e': "exec n callee ?b x1 (ev @ out) = (fl, x2, ev2)"
            using "4.IH"(1) [OF p False n] e by simp
          note u = exec_Loop_enter [OF p False n e, of step]
          note u' = exec_Loop_enter [OF p' False n e', of ?st]
          show ?thesis
          proof (cases "fl = Normal \<or> fl = Continued")
            case nc: True
            show ?thesis
            proof (cases step)
              case None
              have "exec (n - 1) callee (Loop True ?c ?st ?b) x2 ev2 =
                  exec (n - 1) callee (Loop True c step b) x2 ev2"
                using "4.IH"(2) [OF p False n e nc None] enc [of True] by metis
              then show ?thesis using nc unfolding u u' by (simp add: None)
            next
              case (Some st)
              show ?thesis
              proof (cases "perform callee st x2")
                case None
                then show ?thesis using nc unfolding u u'
                  by (simp add: Some perform_encrypt_act)
              next
                case q: (Some r)
                obtain w x3 out3 where q: "perform callee st x2 = Some (w, x3, out3)"
                  using q by (cases r) auto
                have "exec (n - 1) callee (Loop True ?c ?st ?b) x3 (ev2 @ out3) =
                    exec (n - 1) callee (Loop True c step b) x3 (ev2 @ out3)"
                  using "4.IH"(3) [OF p False n e nc Some q] enc [of True] by metis
                then show ?thesis using nc unfolding u u'
                  by (simp add: Some perform_encrypt_act q)
              qed
            qed
          next
            case False
            then show ?thesis unfolding u u' by simp
          qed
        qed
      qed
    qed
    then show "exec n callee (fst (encrypt_stmt keygen k (Loop test_first c step b))) x ev =
        exec n callee (Loop test_first c step b) x ev"
      by (simp only: enc)
  qed
next
  case (5 n callee a cases dflt x ev)
  show ?case
  proof
    fix k
    obtain c1 c2 where enc: "fst (encrypt_stmt keygen k (Switch a cases dflt)) =
        Switch (fst (encrypt_act keygen k a)) (fst (encrypt_cases keygen c1 cases))
          (map_option (\<lambda>ds. fst (encrypt_stmts keygen c2 ds)) dflt)"
      using enc_Switch by blast
    show "exec n callee (fst (encrypt_stmt keygen k (Switch a cases dflt))) x ev =
        exec n callee (Switch a cases dflt) x ev"
    proof (cases "perform callee a x")
      case None
      then show ?thesis unfolding enc by (simp add: perform_encrypt_act)
    next
      case (Some p)
      obtain v x1 out where p: "perform callee a x = Some (v, x1, out)"
        using Some by (cases p) auto
      show ?thesis using "5.IH" [OF p] unfolding enc by (simp add: perform_encrypt_act p)
    qed
  qed
next
  case (6 n callee x ev)
  show ?case by (simp add: encrypt_stmt.simps)
next
  case (7 n callee x ev)
  show ?case by (simp add: encrypt_stmt.simps)
next
  case (8 n callee r x ev)
  show ?case by (cases r) (simp_all add: enc_Return perform_encrypt_act)
next
  case (9 n callee x ev)
  show ?case by (simp add: encrypt_stmts.simps)
next
  case (10 n callee t ts x ev)
  show ?case
  proof
    fix k
    obtain c1 where enc: "fst (encrypt_stmts keygen k (t # ts)) =
        fst (encrypt_stmt keygen k t) # fst (encrypt_stmts keygen c1 ts)"
      using enc_stmts_Cons by blast
    obtain fl x1 ev1 where r: "exec n callee t x ev = (fl, x1, ev1)"
      by (cases "exec n callee t x ev") auto
    have hd: "exec n callee (fst (encrypt_stmt keygen k t)) x ev = (fl, x1, ev1)"
      using "10.IH"(1) r by simp
    show "exec_list n callee (fst (encrypt_stmts keygen k (t # ts))) x ev =
        exec_list n callee (t # ts) x ev"
    proof (cases "fl = Normal")
      case True
      then show ?thesis using "10.IH"(2) [of x1 ev1] r by (simp add: enc hd)
    next
      case False
      then show ?thesis by (simp add: enc hd r)
    qed
  qed
next
  case (11 n callee v matched dflt x ev)
  then show ?case by (cases dflt) (simp_all add: encrypt_cases.simps)
next
  case (12 n callee v matched l ss rest dflt x ev)
  show ?case
  proof (intro allI)
    fix k k'
    obtain c1 where enc: "fst (encrypt_cases keygen k ((l, ss) # rest)) =
        (l, fst (encrypt_stmts keygen k ss)) # fst (encrypt_cases keygen c1 rest)"
      using enc_cases_Cons by blast
    show "exec_cases n callee v matched (fst (encrypt_cases keygen k ((l, ss) # rest)))
         (map_option (\<lambda>ds. fst (encrypt_stmts keygen k' ds)) dflt) x ev =
        exec_cases n callee v matched ((l, ss) # rest) dflt x ev"
    proof (cases "matched \<or> l = v")
      case False
      then show ?thesis using "12.IH"(3) [OF False] by (simp add: enc)
    next
      case True
      obtain fl x1 ev1 where r: "exec_list n callee ss x ev = (fl, x1, ev1)"
        by (cases "exec_list n callee ss x ev") auto
      have hd: "exec_list n callee (fst (encrypt_stmts keygen k ss)) x ev = (fl, x1, ev1)"
        using "12.IH"(1) [OF True] r by simp
      show ?thesis
      proof (cases "fl = Normal")
        case n: True
        then show ?thesis using "12.IH"(2) [OF True, of x1 ev1] True r
          by (auto simp: enc hd)
      next
        case False
        then show ?thesis using True by (auto simp: enc hd r)
      qed
    qed
  qed
qed

lemma creation_order_valid: "valid_numbering (creation_order cfg) cfg"
  by (simp add: valid_numbering_def creation_order_def list_all_iff)

lemma obfuscate_flatten:
  "execute_flattened n callee (obfuscate keygen encrypt_strings numbering cfg) x =
     execute_flattened n callee (tree (flatten numbering cfg)) x"
  by (simp add: execute_flattened_def obfuscate_def exec_encrypt(1))

subsection \<open>A function and its transformed form\<close>

lemma function_result_finished:
  "function_result res = Some R \<Longrightarrow> fst res \<noteq> Fuel_out"
  by (auto simp: function_result_def split: prod.splits flow.splits)

lemma build_function_cfg:
  assumes "build_function body = Inr G"
  shows "orphan False False body = None" and "entry G = 0" and "exit G = 1"
    and "blocks G = finish_blocks
       (close_block (Fallthrough 1) (build 1 [] [] body ([None, None], 0, [])))"
  using assms by (auto simp: build_function_def split: option.splits)

lemma build_function_ext:
  assumes "build_function body = Inr G"
  defines "Bf \<equiv> build 1 [] [] body ([None, None], 0, [])"
  shows "ext Bf G" and "open_at Bf" and "fst (snd Bf) \<noteq> 1"
    and "blocks G ! fst (snd Bf) = \<lparr>statements = snd (snd Bf), terminator = Fallthrough 1\<rparr>"
    and "fst (snd Bf) < length (blocks G)" and "1 < length (blocks G)"
proof -
  let ?B0 = "([None, None], 0, []) :: ('a, 'b, 'c) builder"
  have o0: "open_at ?B0" by (simp add: open_at_def)
  have g: "grown ?B0 Bf" using build_grown(1) [of ?B0 1 "[]" "[]" body] o0 by (simp add: Bf_def)
  show o: "open_at Bf" by (rule grown_open [OF g])
  obtain cl cur pend where B: "Bf = (cl, cur, pend)" by (cases Bf)
  have c: "cur < length cl" "cl ! cur = None" using o by (simp_all add: B open_at_def)
  have l: "2 \<le> length cl" using grown_length [OF g] by (simp add: B)
  have bl: "blocks G = finish_blocks (cl[cur := Some \<lparr>statements = pend, terminator = Fallthrough 1\<rparr>])"
    using build_function_cfg(4) [OF assms(1)] unfolding Bf_def [symmetric] B
    by (simp add: close_block_def)
  show "fst (snd Bf) \<noteq> 1" using g by (auto simp: grown_def B)
  show "blocks G ! fst (snd Bf) = \<lparr>statements = snd (snd Bf), terminator = Fallthrough 1\<rparr>"
    using c by (simp add: B bl finish_blocks_def)
  show "fst (snd Bf) < length (blocks G)" using c by (simp add: B bl finish_blocks_def)
  show "1 < length (blocks G)" using l by (simp add: bl finish_blocks_def)
  have "extends cl G"
    unfolding extends_def
  proof (intro allI impI)
    fix i b assume i: "i < length cl" "cl ! i = Some b"
    then have "i \<noteq> cur" using c by auto
    then show "i < length (blocks G) \<and> blocks G ! i = b"
      using i by (simp add: bl finish_blocks_def)
  qed
  then show "ext Bf G" using c by (auto simp: ext_def B bl finish_blocks_def)
qed

lemma build_function_simulates:
  assumes "build_function body = Inr G"
  shows "simulates n callee G 0 s [] (exec n callee body s [])
     (fst (snd (build 1 [] [] body ([None, None], 0, []))))
     (snd (snd (build 1 [] [] body ([None, None], 0, [])))) 1 1"
proof -
  let ?B0 = "([None, None], 0, []) :: ('a, 'b, 'c) builder"
  have "simulates n callee G (fst (snd ?B0)) s [] (exec n callee body s [])
     (fst (snd (build 1 [] [] body ?B0))) (snd (snd (build 1 [] [] body ?B0)))
     (innermost 1 []) (innermost 1 [])"
    using build_function_ext(1) [OF assms] build_function_cfg(3) [OF assms]
    by (intro build_simulates(1) [rule_format]) (simp add: open_at_def)
  then show ?thesis by (simp add: innermost_def)
qed

lemma build_function_forward:
  assumes "build_function body = Inr G" and "function_result (exec n callee body s []) = Some R"
  shows "\<exists>j. execute_cfg j callee G s = Some (Returned (fst R), snd R)"
proof -
  let ?Bf = "build 1 [] [] body ([None, None], 0, [])"
  obtain fl s' ev' where e: "exec n callee body s [] = (fl, s', ev')"
    by (cases "exec n callee body s []")
  note sim = build_function_simulates [OF assms(1), of n callee s, unfolded e]
  note x = build_function_ext [OF assms(1)]
  have ex: "exit G = 1" and en: "entry G = 0" using build_function_cfg [OF assms(1)] by simp_all
  show ?thesis
  proof (cases fl)
    case Normal
    then obtain j s1 ev1 where r: "reach callee G 0 s [] j (fst (snd ?Bf)) s1 ev1"
      and p: "run_statements callee (snd (snd ?Bf)) s1 ev1 = Finished (s', ev')"
      using sim by (auto simp: simulates_def)
    have "reach callee G (fst (snd ?Bf)) s1 ev1 1 1 s' ev'"
      by (rule block_goto [OF _ x(5) x(4) p]) (use x(3) ex in simp_all)
    from reach_trans [OF r this] have "run_cfg (0 + (1 + j)) callee G 0 s [] = run_cfg 0 callee G 1 s' ev'"
      unfolding reach_def by blast
    then have "execute_cfg (1 + j) callee G s = Some (Returned None, s', ev')"
      by (simp add: execute_cfg_def en run_cfg.simps [of 0] ex)
    moreover have "R = (None, s', ev')" using assms(2) by (simp add: e Normal function_result_def)
    ultimately show ?thesis by auto
  next
    case (Returned r)
    then obtain j where "lands callee G 0 s [] j (Returned r, s', ev')"
      using sim by (auto simp: simulates_def)
    then have "run_cfg (0 + j) callee G 0 s [] = Some (Returned r, s', ev')"
      unfolding lands_def by blast
    then have "execute_cfg j callee G s = Some (Returned r, s', ev')"
      by (simp add: execute_cfg_def en)
    moreover have "R = (r, s', ev')" using assms(2) by (simp add: e Returned function_result_def)
    ultimately show ?thesis by auto
  qed (use assms(2) in \<open>simp_all add: e function_result_def\<close>)
qed

lemma build_function_stuck:
  assumes "build_function body = Inr G" and "fst (exec n callee body s []) = Fuel_out"
  shows "\<exists>j\<ge>n. \<exists>s' ev'. execute_cfg j callee G s = Some (Fuel_out, s', ev')"
proof -
  obtain fl s' ev' where e: "exec n callee body s [] = (fl, s', ev')"
    by (cases "exec n callee body s []")
  have "stuck callee G 0 s [] n"
    using build_function_simulates [OF assms(1), of n callee s] assms(2)
    by (simp add: e simulates_def)
  then show ?thesis
    using build_function_cfg(2) [OF assms(1)] by (simp add: stuck_def execute_cfg_def)
qed

lemma execute_flattened_mono:
  assumes "n \<le> n'" and "sub_callees callee callee'"
    and "fst (execute_flattened n callee t x) \<noteq> Fuel_out"
  shows "execute_flattened n' callee' t x = execute_flattened n callee t x"
proof -
  have "fst (exec n callee t (x, 0, None) []) \<noteq> Fuel_out"
    using assms(3) by (auto simp: execute_flattened_def observe_def split: prod.splits)
  from exec_mono [OF assms(1,2) this] show ?thesis by (simp add: execute_flattened_def)
qed

lemma function_forward:
  assumes "build_function body = Inr G" and "valid_numbering numbering G"
    and "function_result (exec n callee body s []) = Some R"
  shows "\<exists>m. function_result (execute_flattened m callee (obfuscate keygen encrypt_strings numbering G) s) = Some R"
proof -
  obtain j where j: "execute_cfg j callee G s = Some (Returned (fst R), snd R)"
    using build_function_forward [OF assms(1,3)] ..
  have ex: "exit G < length (blocks G)"
    using build_function_ext(6) [OF assms(1)] build_function_cfg(3) [OF assms(1)] by simp
  have "execute_flattened j callee (obfuscate keygen encrypt_strings numbering G) s = (Returned (fst R), snd R)"
    using flatten_simulation [OF ex assms(2) j] by (simp add: obfuscate_flatten)
  then have "function_result (execute_flattened j callee (obfuscate keygen encrypt_strings numbering G) s) = Some R"
    by (simp add: function_result_def split: prod.splits)
  then show ?thesis ..
qed

lemma function_backward:
  assumes "build_function body = Inr G" and "valid_numbering numbering G"
    and "function_result (execute_flattened m callee (obfuscate keygen encrypt_strings numbering G) s) = Some R"
  shows "function_result (exec m callee body s []) = Some R"
proof -
  let ?T = "obfuscate keygen encrypt_strings numbering G"
  have fin: "fst (execute_flattened m callee ?T s) \<noteq> Fuel_out"
    by (rule function_result_finished [OF assms(3)])
  have ex: "exit G < length (blocks G)"
    using build_function_ext(6) [OF assms(1)] build_function_cfg(3) [OF assms(1)] by simp
  obtain fl s' ev' where e: "exec m callee body s [] = (fl, s', ev')"
    by (cases "exec m callee body s []")
  have orphan: "fl \<noteq> Broke \<and> fl \<noteq> Continued"
    using orphan_flow(1) [of False False body m callee, rule_format,
        OF build_function_cfg(1) [OF assms(1)], of s "[]"] by (auto simp: e)
  show ?thesis
  proof (cases "fl = Fuel_out")
    case True
    then obtain j s1 ev1 where j: "m \<le> j" "execute_cfg j callee G s = Some (Fuel_out, s1, ev1)"
      using build_function_stuck [OF assms(1), of m callee s] by (auto simp: e)
    have "execute_flattened j callee ?T s = (Fuel_out, s1, ev1)"
      using flatten_simulation [OF ex assms(2) j(2)] by (simp add: obfuscate_flatten)
    moreover have "execute_flattened j callee ?T s = execute_flattened m callee ?T s"
      by (rule execute_flattened_mono [OF j(1) sub_callees_refl fin])
    ultimately show ?thesis using fin by simp
  next
    case False
    then obtain R' where R': "function_result (exec m callee body s []) = Some R'"
      using orphan by (cases fl) (auto simp: e function_result_def)
    obtain j where j: "function_result (execute_flattened j callee ?T s) = Some R'"
      using function_forward [OF assms(1,2) R'] ..
    have "execute_flattened (max m j) callee ?T s = execute_flattened m callee ?T s"
      by (rule execute_flattened_mono [OF _ sub_callees_refl fin]) simp
    moreover have "execute_flattened (max m j) callee ?T s = execute_flattened j callee ?T s"
      by (rule execute_flattened_mono [OF _ sub_callees_refl function_result_finished [OF j]]) simp
    ultimately have "R' = R" using assms(3) j by simp
    then show ?thesis using R' by simp
  qed
qed

subsection \<open>A program and its transformed form\<close>

lemma obfuscate_program_nth:
  "obfuscate_program keygens encrypt_strings numbering i P = Inr Q \<Longrightarrow>
   length Q = length P \<and>
   (\<forall>f<length P. \<exists>G. build_function (P ! f) = Inr G \<and>
      Q ! f = obfuscate (keygens (i + f)) encrypt_strings (numbering G) G)"
proof (induction P arbitrary: i Q)
  case Nil
  then show ?case by simp
next
  case (Cons b bs)
  from Cons.prems obtain t ts where t: "obfuscate_function (keygens i) encrypt_strings numbering b = Inr t"
    and ts: "obfuscate_program keygens encrypt_strings numbering (Suc i) bs = Inr ts" and Q: "Q = t # ts"
    by (auto split: sum.splits)
  from t obtain G where G: "build_function b = Inr G" "t = obfuscate (keygens i) encrypt_strings (numbering G) G"
    by (auto simp: obfuscate_function_def split: sum.splits)
  note IH = Cons.IH [OF ts]
  show ?case
  proof (intro conjI allI impI)
    show "length Q = length (b # bs)" using IH Q by simp
  next
    fix f assume f: "f < length (b # bs)"
    show "\<exists>G. build_function ((b # bs) ! f) = Inr G \<and>
        Q ! f = obfuscate (keygens (i + f)) encrypt_strings (numbering G) G"
    proof (cases f)
      case 0
      then show ?thesis using G Q by simp
    next
      case (Suc g)
      then show ?thesis using IH f Q by simp
    qed
  qed
qed

lemma call_source_step: "sub_callees (call_source n P) (call_source (Suc n) P)"
proof (induction n)
  case 0
  show ?case by (simp add: sub_callees_def)
next
  case (Suc n)
  show ?case
    unfolding sub_callees_def
  proof (intro allI impI)
    fix f s r
    assume a: "call_source (Suc n) P f s = Some r"
    then have f: "f < length P"
      and r: "function_result (exec n (call_source n P) (P ! f) s []) = Some r"
      by (auto split: if_splits)
    have "exec (Suc n) (call_source (Suc n) P) (P ! f) s [] = exec n (call_source n P) (P ! f) s []"
      by (rule exec_mono [OF _ Suc.IH function_result_finished [OF r]]) simp
    then show "call_source (Suc (Suc n)) P f s = Some r" using f r by simp
  qed
qed

lemma call_obfuscated_step: "sub_callees (call_obfuscated n Q) (call_obfuscated (Suc n) Q)"
proof (induction n)
  case 0
  show ?case by (simp add: sub_callees_def)
next
  case (Suc n)
  show ?case
    unfolding sub_callees_def
  proof (intro allI impI)
    fix f s r
    assume a: "call_obfuscated (Suc n) Q f s = Some r"
    then have f: "f < length Q"
      and r: "function_result (execute_flattened n (call_obfuscated n Q) (Q ! f) s) = Some r"
      by (auto split: if_splits)
    have "execute_flattened (Suc n) (call_obfuscated (Suc n) Q) (Q ! f) s =
        execute_flattened n (call_obfuscated n Q) (Q ! f) s"
      by (rule execute_flattened_mono [OF _ Suc.IH function_result_finished [OF r]]) simp
    then show "call_obfuscated (Suc (Suc n)) Q f s = Some r" using f r by simp
  qed
qed

lemma chain_le:
  assumes "\<And>n. sub_callees (level n) (level (Suc n))" and "k \<le> k'"
  shows "sub_callees (level k) (level k')"
  using assms(2)
proof (induction rule: dec_induct)
  case base
  show ?case by (rule sub_callees_refl)
next
  case (step n)
  show ?case by (rule sub_callees_trans [OF step.IH assms(1)])
qed

lemma chain_limit:
  fixes level :: "nat \<Rightarrow> ('s, 'e) callees"
  assumes "\<And>n. sub_callees (level n) (level (Suc n))"
  shows "\<exists>limit. approximates level limit"
proof -
  define limit :: "('s, 'e) callees"
    where "limit = (\<lambda>f s. if \<exists>n. level n f s \<noteq> None
       then level (LEAST n. level n f s \<noteq> None) f s else None)"
  have below: "sub_callees (level k) limit" for k
    unfolding sub_callees_def
  proof (intro allI impI)
    fix f s r
    assume a: "level k f s = Some r"
    then have "level k f s \<noteq> None" by simp
    then have e: "\<exists>n. level n f s \<noteq> None" ..
    let ?m = "LEAST n. level n f s \<noteq> None"
    have m: "level ?m f s \<noteq> None" using e by (rule LeastI_ex)
    have "?m \<le> k" by (rule Least_le) (simp add: a)
    then have "sub_callees (level ?m) (level k)"
      using chain_le [of level ?m k] assms by blast
    with m have "level k f s = level ?m f s"
      by (auto simp: sub_callees_def)
    then show "limit f s = Some r" using a e by (simp add: limit_def)
  qed
  have above: "limit f s = Some r \<Longrightarrow> \<exists>k. level k f s = Some r" for f s r
    by (auto simp: limit_def split: if_splits)
  show ?thesis
    unfolding approximates_def using chain_le [of level] assms below above by blast
qed

text \<open>
  C6. For every program, given as the list of its function bodies, that the pipeline
  accepts (CFG Builder of section 4.3, Flattening Pass, then String-Encryption Pass when
  switched on), under every numbering of the blocks and every key generator; for every
  function \<open>f\<close> of the program and every input store \<open>s\<close>: the call of \<open>f\<close> in the
  original program returns with \<open>R\<close> if and only if the call of \<open>f\<close> in the
  transformed program, where every callee is transformed as well, returns with \<open>R\<close>:
  the same return value (the exit code, for \<open>main\<close>), the same final store and the
  same sequence of I/O calls (the bytes on stdout). A call that does not return in one
  program does not return in the other.
\<close>

theorem obfuscation_preserves_behaviour:
  fixes P :: "('s, 's, 'e) stmt list"
  assumes Q: "obfuscate_program keygens encrypt_strings numbering 0 P = Inr Q"
    and num: "\<And>G. valid_numbering (numbering G) G"
  shows "(\<exists>n. call_source n P f s = Some R) \<longleftrightarrow> (\<exists>m. call_obfuscated m Q f s = Some R)"
proof -
  obtain SL where SL: "approximates (\<lambda>n. call_source n P) SL"
    using chain_limit [of "\<lambda>n. call_source n P"] call_source_step by blast
  obtain TL where TL: "approximates (\<lambda>n. call_obfuscated n Q) TL"
    using chain_limit [of "\<lambda>n. call_obfuscated n Q"] call_obfuscated_step by blast
  note nth = obfuscate_program_nth [OF Q]
  have len: "length Q = length P" using nth by simp
  have A: "sub_callees (call_source n P) TL" for n
  proof (induction n)
    case 0
    show ?case by (simp add: sub_callees_def)
  next
    case (Suc n)
    show ?case
      unfolding sub_callees_def
    proof (intro allI impI)
      fix g x r
      assume a: "call_source (Suc n) P g x = Some r"
      then have g: "g < length P"
        and r: "function_result (exec n (call_source n P) (P ! g) x []) = Some r"
        by (auto split: if_splits)
      obtain G where G: "build_function (P ! g) = Inr G"
        "Q ! g = obfuscate (keygens (0 + g)) encrypt_strings (numbering G) G"
        using nth g by blast
      have "exec n TL (P ! g) x [] = exec n (call_source n P) (P ! g) x []"
        by (rule exec_mono [OF le_refl Suc.IH function_result_finished [OF r]])
      then have "function_result (exec n TL (P ! g) x []) = Some r" using r by simp
      from function_forward [OF G(1) num this, of "keygens (0 + g)" encrypt_strings]
      obtain m where m: "function_result (execute_flattened m TL (Q ! g) x) = Some r"
        using G(2) by auto
      have fin: "fst (exec m TL (Q ! g) (x, 0, None) []) \<noteq> Fuel_out"
        using function_result_finished [OF m]
        by (auto simp: execute_flattened_def observe_def split: prod.splits)
      obtain k where k: "exec m (call_obfuscated k Q) (Q ! g) (x, 0, None) [] =
          exec m TL (Q ! g) (x, 0, None) []"
        using exec_cont [OF TL fin] by blast
      let ?K = "max m k"
      have "exec ?K (call_obfuscated ?K Q) (Q ! g) (x, 0, None) [] =
          exec m (call_obfuscated k Q) (Q ! g) (x, 0, None) []"
        by (rule exec_mono [OF _ approximates_chain [OF TL]]) (use k fin in simp_all)
      then have "call_obfuscated (Suc ?K) Q g x = Some r"
        using m k g len by (simp add: execute_flattened_def)
      then show "TL g x = Some r"
        using approximates_below [OF TL, of "Suc ?K"] unfolding sub_callees_def by blast
    qed
  qed
  have B: "sub_callees (call_obfuscated m Q) SL" for m
  proof (induction m)
    case 0
    show ?case by (simp add: sub_callees_def)
  next
    case (Suc m)
    show ?case
      unfolding sub_callees_def
    proof (intro allI impI)
      fix g x r
      assume a: "call_obfuscated (Suc m) Q g x = Some r"
      then have g: "g < length P"
        and r: "function_result (execute_flattened m (call_obfuscated m Q) (Q ! g) x) = Some r"
        using len by (auto split: if_splits)
      obtain G where G: "build_function (P ! g) = Inr G"
        "Q ! g = obfuscate (keygens (0 + g)) encrypt_strings (numbering G) G"
        using nth g by blast
      have "execute_flattened m SL (Q ! g) x = execute_flattened m (call_obfuscated m Q) (Q ! g) x"
        by (rule execute_flattened_mono [OF le_refl Suc.IH function_result_finished [OF r]])
      then have "function_result (execute_flattened m SL (Q ! g) x) = Some r" using r by simp
      then have s: "function_result (exec m SL (P ! g) x []) = Some r"
        using function_backward [OF G(1) num, of m SL "keygens (0 + g)" encrypt_strings x r] G(2) by simp
      have fin: "fst (exec m SL (P ! g) x []) \<noteq> Fuel_out"
        by (rule function_result_finished [OF s])
      obtain k where k: "exec m (call_source k P) (P ! g) x [] = exec m SL (P ! g) x []"
        using exec_cont [OF SL fin] by blast
      let ?K = "max m k"
      have "exec ?K (call_source ?K P) (P ! g) x [] = exec m (call_source k P) (P ! g) x []"
        by (rule exec_mono [OF _ approximates_chain [OF SL]]) (use k fin in simp_all)
      then have "call_source (Suc ?K) P g x = Some r"
        using s k g by simp
      then show "SL g x = Some r"
        using approximates_below [OF SL, of "Suc ?K"] unfolding sub_callees_def by blast
    qed
  qed
  show ?thesis
  proof
    assume "\<exists>n. call_source n P f s = Some R"
    then obtain n where "call_source n P f s = Some R" ..
    then have "TL f s = Some R" using A [of n] unfolding sub_callees_def by blast
    then show "\<exists>m. call_obfuscated m Q f s = Some R"
      using TL unfolding approximates_def by blast
  next
    assume "\<exists>m. call_obfuscated m Q f s = Some R"
    then obtain m where "call_obfuscated m Q f s = Some R" ..
    then have "SL f s = Some R" using B [of m] unfolding sub_callees_def by blast
    then show "\<exists>n. call_source n P f s = Some R"
      using SL unfolding approximates_def by blast
  qed
qed

subsection \<open>control\_flow.c\<close>

text \<open>
  The statement trees of \<open>process_value\<close> and \<open>complex_switch\<close> return what the
  functions of section "src/examples/control\_flow.c" return, for every argument, and
  the tree of \<open>complex_loops\<close> returns 447 for 10.
\<close>

lemma perform_assign [simp]: "perform callee (assign f) x = Some (0, f x, [])"
  by (simp add: perform_def assign_def)

lemma perform_rvalue [simp]: "perform callee (rvalue f) x = Some (f x, x, [])"
  by (simp add: perform_def rvalue_def)

lemma perform_test [simp]: "perform callee (test p) x = Some (if p x then 1 else 0, x, [])"
  by (simp add: perform_def test_def)

lemma process_value_body_returns:
  "exec n callee process_value_body (enter v) ev =
     (Returned (Some (process_value v)), (enter v)\<lparr>v_result := process_value v\<rparr>, ev)"
  by (simp add: process_value_body_def process_value_def enter_def)

lemma complex_switch_body_returns:
  "exec n callee complex_switch_body (enter c) ev =
     (Returned (Some (complex_switch c)),
      (enter c)\<lparr>v_result := first_switch c 0\<rparr>, ev)"
  by (simp add: complex_switch_body_def complex_switch_def first_switch_def nested_switch_def
      case_1_arm_def case_2_arm_def case_3_arm_def case_5_arm_def default_arm_def enter_def)

lemma complex_loops_body_10:
  "exec 18 callee complex_loops_body (enter 10) ev =
     (Returned (Some 447), \<lparr>v_arg = 10, v_result = 447, v_i = 10, v_j = 8\<rparr>, ev)"
  by (simp add: complex_loops_body_def For_def enter_def exec.simps(4))

lemma perform_printf_of_call:
  "perform callee (printf_of_call fmt f a) x =
     (case callee f (enter a) of
        None \<Rightarrow> None
      | Some (r, s', out) \<Rightarrow>
          Some (0, x, out @ [Printf (bytes_of fmt) [case r of None \<Rightarrow> 0 | Some v \<Rightarrow> v]]))"
  by (simp add: perform_def printf_of_call_def split: option.splits)

lemma call_source_control_flow_c:
  "call_source (Suc n) control_flow_c 0 (enter v) =
     Some (Some (process_value v), (enter v)\<lparr>v_result := process_value v\<rparr>, [])"
  "call_source (Suc n) control_flow_c 2 (enter c) =
     Some (Some (complex_switch c), (enter c)\<lparr>v_result := first_switch c 0\<rparr>, [])"
  by (simp_all add: control_flow_c_def process_value_body_returns complex_switch_body_returns
      function_result_def)

lemma call_source_numeral:
  "call_source (numeral k) P f s =
     (if f < length P
      then function_result (exec (pred_numeral k) (call_source (pred_numeral k) P) (P ! f) s [])
      else None)"
  by (simp add: numeral_eq_Suc)

lemma call_source_complex_loops_10:
  "call_source 19 control_flow_c 1 (enter 10) =
     Some (Some 447, \<lparr>v_arg = 10, v_result = 447, v_i = 10, v_j = 8\<rparr>, [])"
  by (simp add: call_source_numeral control_flow_c_def complex_loops_body_10 function_result_def)

lemma control_flow_main_runs:
  "call_source 20 control_flow_c 3 (enter 0) = Some (Some 0, enter 0, control_flow_output)"
proof -
  have 1: "call_source 19 control_flow_c 0 (enter v) =
      Some (Some (process_value v), (enter v)\<lparr>v_result := process_value v\<rparr>, [])" for v
    using call_source_control_flow_c(1) [of 18 v] by simp
  have 2: "call_source 19 control_flow_c 2 (enter c) =
      Some (Some (complex_switch c), (enter c)\<lparr>v_result := first_switch c 0\<rparr>, [])" for c
    using call_source_control_flow_c(2) [of 18 c] by simp
  have 3: "call_source 19 control_flow_c (Suc 0) (enter 10) =
      Some (Some 447, \<lparr>v_arg = 10, v_result = 447, v_i = 10, v_j = 8\<rparr>, [])"
    using call_source_complex_loops_10 by simp
  have "exec 19 (call_source 19 control_flow_c) control_flow_main_body (enter 0) [] =
      (Returned (Some 0), enter 0, control_flow_output)"
    by (simp add: control_flow_main_body_def perform_printf_of_call 1 2 3
        control_flow_output_def process_value_def complex_switch_def first_switch_def
        nested_switch_def case_1_arm_def case_2_arm_def case_3_arm_def case_5_arm_def)
  then show ?thesis
    by (simp add: call_source_numeral control_flow_c_def function_result_def)
qed

lemma obfuscate_program_succeeds:
  "\<forall>b\<in>set P. orphan False False b = None \<Longrightarrow>
   \<exists>Q. obfuscate_program keygens encrypt_strings numbering k P = Inr Q"
proof (induction P arbitrary: k)
  case Nil
  show ?case by simp
next
  case (Cons b bs)
  then obtain Q where "obfuscate_program keygens encrypt_strings numbering (Suc k) bs = Inr Q"
    by force
  then show ?case using Cons.prems
    by (simp add: obfuscate_function_def build_function_def)
qed

lemma control_flow_c_no_orphan: "\<forall>b\<in>set control_flow_c. orphan False False b = None"
  by (simp add: control_flow_c_def process_value_body_def complex_loops_body_def
      complex_switch_body_def control_flow_main_body_def For_def)

text \<open>
  The transformed control\_flow.c, flattened and with its format strings encrypted: its
  \<open>main\<close> returns 0 and makes the seven calls of \<open>printf\<close> of the original, with the
  same arguments.
\<close>

theorem obfuscation_preserves_behaviour_witness:
  "\<exists>Q. obfuscate_program (\<lambda>f. example_keys) True creation_order 0 control_flow_c = Inr Q \<and>
     (\<exists>m. call_obfuscated m Q 3 (enter 0) = Some (Some 0, enter 0, control_flow_output))"
proof -
  obtain Q where Q: "obfuscate_program (\<lambda>f. example_keys) True creation_order 0 control_flow_c = Inr Q"
    using obfuscate_program_succeeds [OF control_flow_c_no_orphan] by blast
  have "\<exists>n. call_source n control_flow_c 3 (enter 0) = Some (Some 0, enter 0, control_flow_output)"
    using control_flow_main_runs ..
  then have "\<exists>m. call_obfuscated m Q 3 (enter 0) = Some (Some 0, enter 0, control_flow_output)"
    using obfuscation_preserves_behaviour [OF Q creation_order_valid] by simp
  with Q show ?thesis by blast
qed

end
